theory Spec2Isabelle
  imports Main "HOL-Library.Word"
begin

section \<open>Text, bytes and the library operations the wrapper relies on\<close>

text \<open>
  \<^verbatim>\<open>os.read\<close> returns bytes; the wrapper decodes them into Python text, a sequence of
  Unicode code points. Bytes are 8-bit words, decoded text is a list of code points.
  Command names and arguments keep the type \<open>string\<close>.
\<close>

type_synonym byte = "8 word"
type_synonym ustr = "nat list"

definition NL :: nat where
  "NL = 10"

definition REPLACEMENT :: nat where
  "REPLACEMENT = 0xFFFD"

definition is_cont :: "byte \<Rightarrow> bool" where
  "is_cont b = (0x80 \<le> unat b \<and> unat b < 0xC0)"

text \<open>
  \<^verbatim>\<open>data.decode('utf-8', 'replace')\<close>: the decoder of the Python runtime. A well-formed
  sequence gives its code point; an invalid start byte, a lead byte followed by a byte that
  cannot continue it, and a sequence cut short by the end of the data each give one
  U+FFFD. After an invalid continuation decoding resumes at the offending byte; a sequence
  cut short by the end of the data is replaced as a whole.
\<close>

fun utf8_decode :: "byte list \<Rightarrow> ustr" where
  "utf8_decode [] = []"
| "utf8_decode (b0 # bs) =
     (if unat b0 < 0x80 then unat b0 # utf8_decode bs
      else if unat b0 < 0xC2 then REPLACEMENT # utf8_decode bs
      else if unat b0 < 0xE0 then
        (case bs of
           [] \<Rightarrow> [REPLACEMENT]
         | b1 # r1 \<Rightarrow>
             if is_cont b1
             then ((unat b0 - 0xC0) * 64 + (unat b1 - 0x80)) # utf8_decode r1
             else REPLACEMENT # utf8_decode bs)
      else if unat b0 < 0xF0 then
        (case bs of
           [] \<Rightarrow> [REPLACEMENT]
         | b1 # r1 \<Rightarrow>
             if \<not> is_cont b1 \<or> (if unat b1 < 0xA0 then unat b0 = 0xE0 else unat b0 = 0xED)
             then REPLACEMENT # utf8_decode bs
             else
               (case r1 of
                  [] \<Rightarrow> [REPLACEMENT]
                | b2 # r2 \<Rightarrow>
                    if is_cont b2
                    then ((unat b0 - 0xE0) * 4096 + (unat b1 - 0x80) * 64 + (unat b2 - 0x80))
                           # utf8_decode r2
                    else REPLACEMENT # utf8_decode r1))
      else if unat b0 < 0xF5 then
        (case bs of
           [] \<Rightarrow> [REPLACEMENT]
         | b1 # r1 \<Rightarrow>
             if \<not> is_cont b1 \<or> (if unat b1 < 0x90 then unat b0 = 0xF0 else unat b0 = 0xF4)
             then REPLACEMENT # utf8_decode bs
             else
               (case r1 of
                  [] \<Rightarrow> [REPLACEMENT]
                | b2 # r2 \<Rightarrow>
                    if \<not> is_cont b2 then REPLACEMENT # utf8_decode r1
                    else
                      (case r2 of
                         [] \<Rightarrow> [REPLACEMENT]
                       | b3 # r3 \<Rightarrow>
                           if is_cont b3
                           then ((unat b0 - 0xF0) * 262144 + (unat b1 - 0x80) * 4096
                                   + (unat b2 - 0x80) * 64 + (unat b3 - 0x80)) # utf8_decode r3
                           else REPLACEMENT # utf8_decode r2)))
      else REPLACEMENT # utf8_decode bs)"

text \<open>
  \<^verbatim>\<open>s.split(sep)\<close> for a one-element separator: the pieces between the separators, in
  order; the result is never empty, and its last piece is what follows the last separator.
\<close>

fun split_on :: "'a \<Rightarrow> 'a list \<Rightarrow> 'a list list" where
  "split_on c [] = [[]]"
| "split_on c (x # xs) =
     (if x = c then [] # split_on c xs
      else (case split_on c xs of
              [] \<Rightarrow> [[x]]
            | l # ls \<Rightarrow> (x # l) # ls))"

text \<open>\<^verbatim>\<open>sep.join(pieces)\<close>.\<close>

fun join :: "'a list \<Rightarrow> 'a list list \<Rightarrow> 'a list" where
  "join sep [] = []"
| "join sep [l] = l"
| "join sep (l # l' # ls) = l @ sep @ join sep (l' # ls)"

text \<open>\<^verbatim>\<open>s.replace(old, new)\<close> for a pattern \<open>old\<close> of one character.\<close>

definition replace1 :: "char \<Rightarrow> string \<Rightarrow> string \<Rightarrow> string" where
  "replace1 old new s = concat (map (\<lambda>c. if c = old then new else [c]) s)"


section \<open>StreamLineProcessor\<close>

text \<open>
  The object keeps the handler and the buffered partial line. The handler is a callable
  with an effect; it is a function on the state \<open>'s\<close> it acts on. The file object is the
  source of the bytes: the result of \<^verbatim>\<open>os.read(self._file.fileno(), 4096)\<close> is the
  argument \<open>data\<close> of \<open>process\<close>, and the returned flag \<open>True\<close> says that the file has
  been closed.
\<close>

record 's StreamLineProcessor =
  slp_handler :: "ustr \<Rightarrow> 's \<Rightarrow> 's"
  slp_buf :: ustr

definition new_StreamLineProcessor :: "(ustr \<Rightarrow> 's \<Rightarrow> 's) \<Rightarrow> 's StreamLineProcessor" where
  "new_StreamLineProcessor handler = \<lparr>slp_handler = handler, slp_buf = []\<rparr>"

definition process ::
  "byte list \<Rightarrow> 's StreamLineProcessor \<Rightarrow> 's \<Rightarrow> bool \<times> 's StreamLineProcessor \<times> 's" where
  "process data p st =
     (if data = [] then (True, p, slp_handler p (slp_buf p) st)
      else
        let b = slp_buf p @ utf8_decode data in
        if NL \<notin> set b then (False, p\<lparr>slp_buf := b\<rparr>, st)
        else
          let tmp = split_on NL b in
          (False, p\<lparr>slp_buf := last tmp\<rparr>, fold (slp_handler p) (butlast tmp) st))"

text \<open>
  A reader is processed once per read until it reports the end of the stream:
  \<open>reads chunks\<close> hands the successive results of \<^verbatim>\<open>os.read\<close> to \<open>process\<close>, and the
  zero-byte read after the last chunk.
\<close>

fun reads :: "byte list list \<Rightarrow> 's StreamLineProcessor \<Rightarrow> 's \<Rightarrow> 's" where
  "reads [] p st = snd (snd (process [] p st))"
| "reads (d # ds) p st =
     (case process d p st of
        (eof, p', st') \<Rightarrow> if eof then st' else reads ds p' st')"

text \<open>The handler that records the lines it is called with, in order.\<close>

definition record_line :: "ustr \<Rightarrow> ustr list \<Rightarrow> ustr list" where
  "record_line line calls = calls @ [line]"


section \<open>Quoting\<close>

definition shell_quote :: "string \<Rightarrow> string" where
  "shell_quote arg =
     [CHR 0x27] @ replace1 (CHR 0x27) [CHR 0x27, CHR 0x5C, CHR 0x27, CHR 0x27] arg @ [CHR 0x27]"

definition full_command_quote :: "string \<Rightarrow> string list option \<Rightarrow> string" where
  "full_command_quote command args =
     (case args of
        None \<Rightarrow> command
      | Some as \<Rightarrow>
          if length as > 0
          then command @ '' '' @ join '' '' (map shell_quote as)
          else command)"

text \<open>
  The quoting rules of a POSIX shell that the comment of \<^verbatim>\<open>shell_quote\<close> cites, read as
  the removal of quotes from one word: between single quotes every character stands for
  itself and the next single quote ends the quoted part; outside quotes a backslash makes
  the next character stand for itself, and a backslash with a newline is removed. A word
  that ends inside quotes or after a backslash, and an unquoted character that the shell
  would not take literally (a blank, an operator, a double quote, a dollar sign, a
  backquote, a pattern character), have no reading as one literal word: the result is
  \<open>None\<close>. The flag says whether the position is between single quotes.
\<close>

definition sh_special :: "char \<Rightarrow> bool" where
  "sh_special c = (c \<in> set '' |&;<>()$`*?[]#~=%!{}'' \<or> c = CHR 0x22 \<or> c = CHR 0x09 \<or> c = CHR 0x0A)"

fun sh_unquote_from :: "bool \<Rightarrow> string \<Rightarrow> string option" where
  "sh_unquote_from True [] = None"
| "sh_unquote_from True (c # cs) =
     (if c = CHR 0x27 then sh_unquote_from False cs
      else map_option ((#) c) (sh_unquote_from True cs))"
| "sh_unquote_from False [] = Some []"
| "sh_unquote_from False [c] =
     (if c = CHR 0x27 \<or> c = CHR 0x5C \<or> sh_special c then None else Some [c])"
| "sh_unquote_from False (c # d # ds) =
     (if c = CHR 0x27 then sh_unquote_from True (d # ds)
      else if c = CHR 0x5C then
        (if d = CHR 0x0A then sh_unquote_from False ds
         else map_option ((#) d) (sh_unquote_from False ds))
      else if sh_special c then None
      else map_option ((#) c) (sh_unquote_from False (d # ds)))"

definition sh_unquote :: "string \<Rightarrow> string option" where
  "sh_unquote w = sh_unquote_from False w"


section \<open>The command object and its environment\<close>

datatype stream_id = Stdout | Stderr

datatype handler =
    Append_out
  | Append_err
  | Logging_handler int "ustr option"
  | Output_handler "ustr option"
  | User_handler nat

record kwargs =
  kw_stdin :: "byte list option"
  kw_check :: "bool option"
  kw_allowed_retval :: "int list option"
  kw_close_fds :: "bool option"
  kw_out_handler :: "handler option"
  kw_err_handler :: "handler option"
  kw_unknown :: "string list"

record failure =
  f_ret :: "int option"
  f_out :: "ustr option"
  f_err :: "ustr option"

datatype exn =
    CommandFailedException failure
  | CommandMaxRetryExceeded failure
  | TypeError
  | ValueError
  | Select_error int
  | SystemExit int

datatype cmdline = Shell_command string | Exec_argv "string list"

record command =
  cmd :: string
  args :: "string list"
  shell :: bool
  close_fds :: bool
  check :: bool
  allowed_retval :: "int list"
  retry_times :: int
  retry_sleep :: int
  retry_handler :: "nat option"
  env :: "(string \<times> string) list option"
  out_handler :: handler
  err_handler :: handler
  pipe :: "nat option"
  ret :: "int option"
  out :: "ustr option"
  err :: "ustr option"

datatype event =
    Popen cmdline bool "(string \<times> string) list option" bool
  | Stdin_write nat "byte list"
  | Sleep int
  | Retry_handler_call nat command "string list" kwargs int exn
  | Log_line int ustr
  | Output_info ustr
  | User_line nat ustr
  | Send_signal nat int

record world =
  spawned :: nat
  events :: "event list"
  out_list :: "ustr list"
  err_list :: "ustr list"

datatype ('a, 's) outcome =
    Returns 'a 's
  | Raises exn 's
  | Select_waits 's
  | Read_blocks stream_id


section \<open>The pipes of a child process\<close>

text \<open>
  What the wrapper sees of a running child: for each of its two output streams the bytes
  written and not yet read, whether the child has closed its end and whether the wrapper
  has closed its own. The child's future is a schedule: what arrives on the pipes before
  each call of \<^verbatim>\<open>select.select\<close> returns or goes on waiting, and the error number with
  which that call fails, if it does.
\<close>

record pipe_end =
  pending :: "byte list"
  writer_closed :: bool
  reader_closed :: bool

type_synonym kernel = "stream_id \<Rightarrow> pipe_end"

datatype arrival = Write stream_id "byte list" | Close stream_id

record step =
  arrivals :: "arrival list"
  select_errno :: "int option"

record child =
  schedule :: "step list"
  returncode :: int

definition EINTR :: int where
  "EINTR = 4"

definition SIGTERM :: int where
  "SIGTERM = 15"

definition new_pipe :: pipe_end where
  "new_pipe = \<lparr>pending = [], writer_closed = False, reader_closed = False\<rparr>"

fun arrive :: "arrival \<Rightarrow> kernel \<Rightarrow> kernel" where
  "arrive (Write s d) k =
     (if writer_closed (k s) then k else k(s := (k s)\<lparr>pending := pending (k s) @ d\<rparr>))"
| "arrive (Close s) k = k(s := (k s)\<lparr>writer_closed := True\<rparr>)"

definition readable :: "kernel \<Rightarrow> stream_id \<Rightarrow> bool" where
  "readable k s = (pending (k s) \<noteq> [] \<or> writer_closed (k s))"

text \<open>
  \<^verbatim>\<open>select.select(processors, [], [])[0]\<close>: the readers with data or the end of the stream
  to read, in the order of the list. While none is readable the call waits for the next
  arrivals; it waits for ever when nothing arrives any more. A reader whose file is closed
  has no descriptor: \<^verbatim>\<open>fileno()\<close> raises \<^verbatim>\<open>ValueError\<close>.
\<close>

datatype select_result =
    Ready "stream_id list"
  | Select_fails int
  | Closed_file
  | Waits

fun select :: "step list \<Rightarrow> kernel \<Rightarrow> stream_id list \<Rightarrow> select_result \<times> step list \<times> kernel" where
  "select [] k ps =
     (if \<exists>s \<in> set ps. reader_closed (k s) then (Closed_file, [], k)
      else if filter (readable k) ps = [] then (Waits, [], k)
      else (Ready (filter (readable k) ps), [], k))"
| "select (x # rest) k ps =
     (let k' = fold arrive (arrivals x) k in
      if \<exists>s \<in> set ps. reader_closed (k' s) then (Closed_file, rest, k')
      else
        (case select_errno x of
           Some e \<Rightarrow> (Select_fails e, rest, k')
         | None \<Rightarrow>
             if filter (readable k') ps = [] then select rest k' ps
             else (Ready (filter (readable k') ps), rest, k')))"

text \<open>
  \<^verbatim>\<open>os.read(fd, 4096)\<close>: up to 4096 of the pending bytes; no bytes at the end of the
  stream; with nothing pending and the writing end still open the call blocks.
\<close>

datatype read_result =
    Read_ok "byte list" kernel
  | Read_would_block
  | Read_closed_file

definition os_read :: "kernel \<Rightarrow> stream_id \<Rightarrow> read_result" where
  "os_read k s =
     (if reader_closed (k s) then Read_closed_file
      else if pending (k s) \<noteq> []
        then Read_ok (take 4096 (pending (k s))) (k(s := (k s)\<lparr>pending := drop 4096 (pending (k s))\<rparr>))
      else if writer_closed (k s) then Read_ok [] k
      else Read_would_block)"

definition close_reader :: "stream_id \<Rightarrow> kernel \<Rightarrow> kernel" where
  "close_reader s k = k(s := (k s)\<lparr>reader_closed := True\<rparr>)"


section \<open>The stream-draining loop\<close>

text \<open>
  The readers are objects: the list \<open>processors\<close> and the list that \<open>select\<close> returns
  hold references to them. There is one reader per stream, so a reference is the stream's
  name and \<open>objs\<close> is the store of the objects. A call of a handler is recorded with the
  handler and the line; \<open>run_handler\<close> below gives the calls their effect.
\<close>

type_synonym calls = "(handler \<times> ustr) list"

definition call_handler :: "handler \<Rightarrow> ustr \<Rightarrow> calls \<Rightarrow> calls" where
  "call_handler h line cs = cs @ [(h, line)]"

record loop_state =
  pipes :: kernel
  future :: "step list"
  objs :: "stream_id \<Rightarrow> calls StreamLineProcessor"
  processors :: "stream_id list"
  called :: calls

text \<open>
  The body of the \<^verbatim>\<open>for stream in ready\<close> loop: one \<^verbatim>\<open>stream.process()\<close>, that is one
  read and the processing of what was read, and the removal of the reader at the end of
  its stream.
\<close>

fun for_ready :: "stream_id list \<Rightarrow> loop_state \<Rightarrow> (unit, loop_state) outcome" where
  "for_ready [] st = Returns () st"
| "for_ready (s # rest) st =
     (case os_read (pipes st) s of
        Read_would_block \<Rightarrow> Read_blocks s
      | Read_closed_file \<Rightarrow> Raises ValueError st
      | Read_ok data k' \<Rightarrow>
          (case process data (objs st s) (called st) of
             (eof, p', cs') \<Rightarrow>
               if eof
               then for_ready rest
                      (st\<lparr>pipes := close_reader s k', objs := (objs st)(s := p'), called := cs',
                          processors := remove1 s (processors st)\<rparr>)
               else for_ready rest
                      (st\<lparr>pipes := k', objs := (objs st)(s := p'), called := cs'\<rparr>)))"

definition unread :: "kernel \<Rightarrow> nat" where
  "unread k =
     (\<Sum>s \<leftarrow> [Stdout, Stderr]. length (pending (k s)) + (if reader_closed (k s) then 0 else 1))"

lemma select_future:
  "select f k ps = (r, f', k') \<Longrightarrow>
   length f' \<le> length f \<and> (f = [] \<longrightarrow> k' = k) \<and> (f \<noteq> [] \<longrightarrow> length f' < length f)"
proof (induction f arbitrary: k)
  case Nil
  then show ?case by (auto split: if_splits)
next
  case (Cons x rest)
  show ?case
  proof (cases "select_errno x = None \<and> filter (readable (fold arrive (arrivals x) k)) ps = []
                \<and> \<not> (\<exists>s \<in> set ps. reader_closed (fold arrive (arrivals x) k s))")
    case True
    then have "select rest (fold arrive (arrivals x) k) ps = (r, f', k')"
      using Cons.prems by (simp add: Let_def)
    from Cons.IH [OF this] show ?thesis by auto
  next
    case False
    then show ?thesis using Cons.prems
      by (auto simp: Let_def split: if_splits option.splits)
  qed
qed

lemma select_ready_Nil:
  "select [] k ps = (Ready r, f', k') \<Longrightarrow> r \<noteq> []"
  by (auto split: if_splits)

lemma os_read_unread:
  "os_read k s = Read_ok d k' \<Longrightarrow>
   (d = [] \<longrightarrow> k' = k \<and> \<not> reader_closed (k s)) \<and> (d \<noteq> [] \<longrightarrow> unread k' < unread k)"
  by (cases s) (auto simp: os_read_def unread_def split: if_splits)

lemma process_eof: "process d p cs = (eof, p', cs') \<Longrightarrow> eof = (d = [])"
  by (auto simp: process_def Let_def split: if_splits)

lemma unread_close_reader:
  "\<not> reader_closed (k s) \<Longrightarrow> unread (close_reader s k) < unread k"
  by (cases s) (auto simp: unread_def close_reader_def)

lemma for_ready_future:
  "for_ready r st = Returns u st' \<Longrightarrow>
   future st' = future st \<and> unread (pipes st') + length r \<le> unread (pipes st)"
proof (induction r arbitrary: st)
  case Nil
  then show ?case by simp
next
  case (Cons s rest)
  from Cons.prems obtain d k' where rd: "os_read (pipes st) s = Read_ok d k'"
    by (auto split: read_result.splits)
  obtain eof p' cs' where pr: "process d (objs st s) (called st) = (eof, p', cs')"
    by (cases "process d (objs st s) (called st)") auto
  have eof: "eof = (d = [])" using pr by (rule process_eof)
  show ?case
  proof (cases eof)
    case True
    let ?st = "st\<lparr>pipes := close_reader s k', objs := (objs st)(s := p'), called := cs',
                   processors := remove1 s (processors st)\<rparr>"
    have "for_ready rest ?st = Returns u st'"
      using Cons.prems rd pr True by simp
    from Cons.IH [OF this] have "future st' = future st"
      and "unread (pipes st') + length rest \<le> unread (close_reader s k')" by auto
    moreover have "unread (close_reader s k') < unread (pipes st)"
      using os_read_unread [OF rd] eof True unread_close_reader [of "pipes st" s] by auto
    ultimately show ?thesis by auto
  next
    case False
    let ?st = "st\<lparr>pipes := k', objs := (objs st)(s := p'), called := cs'\<rparr>"
    have "for_ready rest ?st = Returns u st'"
      using Cons.prems rd pr False by simp
    from Cons.IH [OF this] have "future st' = future st"
      and "unread (pipes st') + length rest \<le> unread k'" by auto
    moreover have "unread k' < unread (pipes st)"
      using os_read_unread [OF rd] eof False by auto
    ultimately show ?thesis by auto
  qed
qed

lemma select_fails_future:
  "select f k ps = (Select_fails e, f', k') \<Longrightarrow> length f' < length f"
  using select_future [of f k ps "Select_fails e" f' k']
  by (cases f) (auto split: if_splits)

lemma ready_round_decreases:
  assumes "select (future st) (pipes st) (processors st) = (Ready r, f, k)"
    and "for_ready r (st\<lparr>pipes := k, future := f\<rparr>) = Returns u st'"
  shows "(st', st) \<in> measures [\<lambda>st. length (future st), \<lambda>st. unread (pipes st)]"
proof (cases "future st")
  case Nil
  with assms(1) have "r \<noteq> []" and "f = []" and "k = pipes st"
    by (auto split: if_splits)
  with for_ready_future [OF assms(2)] Nil show ?thesis
    by (cases r) auto
next
  case (Cons x rest)
  with select_future [OF assms(1)] for_ready_future [OF assms(2)] show ?thesis
    by auto
qed

text \<open>
  \<^verbatim>\<open>pipe_processor_loop\<close>: the \<^verbatim>\<open>while processors\<close> loop. An interrupted wait is
  tried again, any other failure of the wait is raised.
\<close>

function pipe_processor_loop :: "loop_state \<Rightarrow> (unit, loop_state) outcome" where
  "pipe_processor_loop st =
     (if processors st = [] then Returns () st
      else
        (case select (future st) (pipes st) (processors st) of
           (Waits, f, k) \<Rightarrow> Select_waits (st\<lparr>pipes := k, future := f\<rparr>)
         | (Closed_file, f, k) \<Rightarrow> Raises ValueError (st\<lparr>pipes := k, future := f\<rparr>)
         | (Select_fails e, f, k) \<Rightarrow>
             if e = EINTR then pipe_processor_loop (st\<lparr>pipes := k, future := f\<rparr>)
             else Raises (Select_error e) (st\<lparr>pipes := k, future := f\<rparr>)
         | (Ready ready, f, k) \<Rightarrow>
             (case for_ready ready (st\<lparr>pipes := k, future := f\<rparr>) of
                Returns u st' \<Rightarrow> pipe_processor_loop st'
              | Raises e st' \<Rightarrow> Raises e st'
              | Select_waits st' \<Rightarrow> Select_waits st'
              | Read_blocks s \<Rightarrow> Read_blocks s)))"
  by pat_completeness auto
termination
proof (relation "measures [\<lambda>st. length (future st), \<lambda>st. unread (pipes st)]", goal_cases)
  case 1
  show ?case by simp
next
  case (2 st x y r f k u st')
  then show ?case
    using ready_round_decreases [of st r f k u st'] by simp
next
  case (3 st x y e f k)
  then show ?case
    using select_fails_future [of "future st" "pipes st" "processors st" e f k] by simp
qed

declare pipe_processor_loop.simps [simp del]


section \<open>Command\<close>

text \<open>
  The effect of a call of a handler on a line. \<open>Append_out\<close> and \<open>Append_err\<close> are the
  \<^verbatim>\<open>append\<close> methods of the two lists that \<^verbatim>\<open>_get_output_once\<close> allocates; the handlers
  built by \<^verbatim>\<open>make_logging_handler\<close> and \<^verbatim>\<open>make_output_handler\<close> skip empty lines.
\<close>

definition with_prefix :: "ustr option \<Rightarrow> ustr \<Rightarrow> ustr" where
  "with_prefix prefix line =
     (case prefix of None \<Rightarrow> line | Some p \<Rightarrow> if p \<noteq> [] then p @ line else line)"

fun run_handler :: "handler \<Rightarrow> ustr \<Rightarrow> world \<Rightarrow> world" where
  "run_handler Append_out line w = w\<lparr>out_list := out_list w @ [line]\<rparr>"
| "run_handler Append_err line w = w\<lparr>err_list := err_list w @ [line]\<rparr>"
| "run_handler (Logging_handler level prefix) line w =
     (if line \<noteq> [] then w\<lparr>events := events w @ [Log_line level (with_prefix prefix line)]\<rparr>
      else w)"
| "run_handler (Output_handler prefix) line w =
     (if line \<noteq> [] then w\<lparr>events := events w @ [Output_info (with_prefix prefix line)]\<rparr>
      else w)"
| "run_handler (User_handler n) line w = w\<lparr>events := events w @ [User_line n line]\<rparr>"

definition run_calls :: "calls \<Rightarrow> world \<Rightarrow> world" where
  "run_calls cs w = fold (\<lambda>(h, line). run_handler h line) cs w"

text \<open>
  \<^verbatim>\<open>_build_pipe\<close>: the command line and \<^verbatim>\<open>subprocess.Popen\<close>. Creating the process is
  an event; the handle of the new process is its number, and \<open>children\<close> says how the
  process with a given number behaves.
\<close>

definition command_line :: "command \<Rightarrow> string list \<Rightarrow> cmdline" where
  "command_line self arguments =
     (let arguments' = args self @ arguments
      in if shell self then Shell_command (full_command_quote (cmd self) (Some arguments'))
         else Exec_argv ([cmd self] @ arguments'))"

definition build_pipe :: "command \<Rightarrow> string list \<Rightarrow> bool \<Rightarrow> world \<Rightarrow> nat \<times> world" where
  "build_pipe self arguments close_fds' w =
     (spawned w,
      w\<lparr>spawned := Suc (spawned w),
        events := events w
          @ [Popen (command_line self arguments) (shell self) (env self) close_fds']\<rparr>)"

text \<open>\<^verbatim>\<open>if stdin: pipe.stdin.write(stdin)\<close>.\<close>

definition write_stdin :: "byte list option \<Rightarrow> nat \<Rightarrow> world \<Rightarrow> world" where
  "write_stdin stdin p w =
     (case stdin of
        None \<Rightarrow> w
      | Some d \<Rightarrow> if d \<noteq> [] then w\<lparr>events := events w @ [Stdin_write p d]\<rparr> else w)"

definition check_return_value :: "command \<Rightarrow> int list \<Rightarrow> exn option" where
  "check_return_value self allowed =
     (if (case ret self of None \<Rightarrow> True | Some r \<Rightarrow> r \<notin> set allowed)
      then Some (CommandFailedException \<lparr>f_ret = ret self, f_out = out self, f_err = err self\<rparr>)
      else None)"

definition start_loop :: "child \<Rightarrow> handler \<Rightarrow> handler \<Rightarrow> loop_state" where
  "start_loop c out_h err_h =
     \<lparr>pipes = (\<lambda>s. new_pipe),
      future = schedule c,
      objs = (\<lambda>s. case s of
                     Stdout \<Rightarrow> new_StreamLineProcessor (call_handler out_h)
                   | Stderr \<Rightarrow> new_StreamLineProcessor (call_handler err_h)),
      processors = [Stdout, Stderr],
      called = []\<rparr>"

definition execute ::
  "(nat \<Rightarrow> child) \<Rightarrow> command \<Rightarrow> string list \<Rightarrow> kwargs \<Rightarrow> world
     \<Rightarrow> (int, command \<times> world) outcome" where
  "execute children self arguments kw w =
     (let stdin = kw_stdin kw;
          check' = (case kw_check kw of Some v \<Rightarrow> v | None \<Rightarrow> check self);
          allowed = (case kw_allowed_retval kw of Some v \<Rightarrow> v | None \<Rightarrow> allowed_retval self);
          close_fds' = (case kw_close_fds kw of Some v \<Rightarrow> v | None \<Rightarrow> close_fds self);
          out_h = (case kw_out_handler kw of Some v \<Rightarrow> v | None \<Rightarrow> out_handler self);
          err_h = (case kw_err_handler kw of Some v \<Rightarrow> v | None \<Rightarrow> err_handler self)
      in
      if kw_unknown kw \<noteq> [] then Raises TypeError (self, w)
      else
        let self1 = self\<lparr>ret := None, out := None, err := None\<rparr>;
            (p, w1) = build_pipe self1 arguments close_fds' w;
            self2 = self1\<lparr>pipe := Some p\<rparr>;
            w2 = write_stdin stdin p w1
        in
        (case pipe_processor_loop (start_loop (children p) out_h err_h) of
           Returns u st \<Rightarrow>
             let w3 = run_calls (called st) w2;
                 self3 = self2\<lparr>ret := Some (returncode (children p)), pipe := None\<rparr>
             in
             if check' then
               (case check_return_value self3 allowed of
                  Some e \<Rightarrow> Raises e (self3, w3)
                | None \<Rightarrow> Returns (returncode (children p)) (self3, w3))
             else Returns (returncode (children p)) (self3, w3)
         | Raises e st \<Rightarrow> Raises e (self2, run_calls (called st) w2)
         | Select_waits st \<Rightarrow> Select_waits (self2, run_calls (called st) w2)
         | Read_blocks s \<Rightarrow> Read_blocks s))"

text \<open>
  \<^verbatim>\<open>_get_output_once\<close>. The keyword dictionary it receives is its own copy; it removes
  \<^verbatim>\<open>check\<close> and \<^verbatim>\<open>allowed_retval\<close> and passes the rest on together with its own
  handlers and \<^verbatim>\<open>check=False\<close>, which is a \<^verbatim>\<open>TypeError\<close> when the rest names one of the
  handlers again.
\<close>

definition get_output_once ::
  "(nat \<Rightarrow> child) \<Rightarrow> command \<Rightarrow> string list \<Rightarrow> kwargs \<Rightarrow> world
     \<Rightarrow> (ustr \<times> ustr, command \<times> world) outcome" where
  "get_output_once children self arguments kw w =
     (let w0 = w\<lparr>out_list := [], err_list := []\<rparr>;
          check' = (case kw_check kw of Some v \<Rightarrow> v | None \<Rightarrow> check self);
          allowed = (case kw_allowed_retval kw of Some v \<Rightarrow> v | None \<Rightarrow> allowed_retval self);
          kw' = kw\<lparr>kw_check := None, kw_allowed_retval := None\<rparr>
      in
      if kw_out_handler kw' \<noteq> None \<or> kw_err_handler kw' \<noteq> None then Raises TypeError (self, w0)
      else
        (case execute children self arguments
                (kw'\<lparr>kw_out_handler := Some Append_out, kw_err_handler := Some Append_err,
                     kw_check := Some False\<rparr>) w0 of
           Returns r (self1, w1) \<Rightarrow>
             let self2 = self1\<lparr>out := Some (join [NL] (out_list w1)),
                              err := Some (join [NL] (err_list w1))\<rparr>
             in
             if check' then
               (case check_return_value self2 allowed of
                  Some e \<Rightarrow> Raises e (self2, w1)
                | None \<Rightarrow> Returns (join [NL] (out_list w1), join [NL] (err_list w1)) (self2, w1))
             else Returns (join [NL] (out_list w1), join [NL] (err_list w1)) (self2, w1)
         | Raises e s \<Rightarrow> Raises e s
         | Select_waits s \<Rightarrow> Select_waits s
         | Read_blocks s \<Rightarrow> Read_blocks s))"


lemma execute_Raises_retry_times:
  "execute children self arguments kw w = Raises e (self', w') \<Longrightarrow>
   retry_times self' = retry_times self"
  by (auto simp: execute_def Let_def check_return_value_def
      split: if_splits prod.splits outcome.splits option.splits)

lemma get_output_once_Raises_retry_times:
  "get_output_once children self arguments kw w = Raises e (self', w') \<Longrightarrow>
   retry_times self' = retry_times self"
proof -
  assume a: "get_output_once children self arguments kw w = Raises e (self', w')"
  let ?kw = "kw\<lparr>kw_check := None, kw_allowed_retval := None, kw_out_handler := Some Append_out,
                 kw_err_handler := Some Append_err, kw_check := Some False\<rparr>"
  let ?w = "w\<lparr>out_list := [], err_list := []\<rparr>"
  show ?thesis
  proof (cases "execute children self arguments ?kw ?w")
    case (Returns r s)
    obtain self1 w1 where s: "s = (self1, w1)" by (cases s)
    have "execute children self arguments ?kw ?w \<noteq> Raises e (self1, w1)"
      using Returns by simp
    have "retry_times self1 = retry_times self"
      using Returns s
      by (auto simp: execute_def Let_def split: if_splits prod.splits outcome.splits option.splits)
    then show ?thesis using a Returns s
      by (auto simp: get_output_once_def Let_def check_return_value_def split: if_splits)
  next
    case (Raises e' s)
    then show ?thesis using a execute_Raises_retry_times [of children self arguments ?kw ?w]
      by (auto simp: get_output_once_def Let_def split: if_splits)
  next
    case (Select_waits s)
    then show ?thesis using a by (auto simp: get_output_once_def Let_def split: if_splits)
  next
    case (Read_blocks s)
    then show ?thesis using a by (auto simp: get_output_once_def Let_def split: if_splits)
  qed
qed

text \<open>
  \<^verbatim>\<open>get_output\<close>: the \<^verbatim>\<open>while True\<close> loop, from the value of \<^verbatim>\<open>attempt\<close>. Only
  \<^verbatim>\<open>CommandFailedException\<close> is caught. The retry handler is a callable named by a
  number; its call is an event. \<^verbatim>\<open>time.sleep\<close> raises \<^verbatim>\<open>ValueError\<close> on a negative
  length.
\<close>

definition call_retry_handler ::
  "command \<Rightarrow> string list \<Rightarrow> kwargs \<Rightarrow> int \<Rightarrow> exn \<Rightarrow> world \<Rightarrow> world" where
  "call_retry_handler self arguments kw attempt exc w =
     (case retry_handler self of
        Some h \<Rightarrow> w\<lparr>events := events w @ [Retry_handler_call h self arguments kw attempt exc]\<rparr>
      | None \<Rightarrow> w)"

function get_output_from ::
  "(nat \<Rightarrow> child) \<Rightarrow> command \<Rightarrow> string list \<Rightarrow> kwargs \<Rightarrow> int \<Rightarrow> world
     \<Rightarrow> (ustr \<times> ustr, command \<times> world) outcome" where
  "get_output_from children self arguments kw attempt w =
     (case get_output_once children self arguments kw w of
        Returns r s \<Rightarrow> Returns r s
      | Select_waits s \<Rightarrow> Select_waits s
      | Read_blocks s \<Rightarrow> Read_blocks s
      | Raises exc (self', w') \<Rightarrow>
          (case exc of
             CommandFailedException d \<Rightarrow>
               if attempt < retry_times self' then
                 let w1 = call_retry_handler self' arguments kw attempt exc w'
                 in
                 if retry_sleep self' < 0 then Raises ValueError (self', w1)
                 else get_output_from children self' arguments kw (attempt + 1)
                        (w1\<lparr>events := events w1 @ [Sleep (retry_sleep self')]\<rparr>)
               else if attempt = 0 then Raises exc (self', w')
               else Raises (CommandMaxRetryExceeded d) (self', w')
           | _ \<Rightarrow> Raises exc (self', w')))"
  by pat_completeness auto
termination
proof (relation "measure (\<lambda>(children, self, arguments, kw, attempt, w). nat (retry_times self - attempt))",
    goal_cases)
  case 1
  show ?case by simp
next
  case (2 children self arguments kw attempt w exc s self' w' d w1)
  then show ?case
    using get_output_once_Raises_retry_times [of children self arguments kw w exc self' w']
    by simp
qed

declare get_output_from.simps [simp del]

definition get_output ::
  "(nat \<Rightarrow> child) \<Rightarrow> command \<Rightarrow> string list \<Rightarrow> kwargs \<Rightarrow> world
     \<Rightarrow> (ustr \<times> ustr, command \<times> world) outcome" where
  "get_output children self arguments kw w = get_output_from children self arguments kw 0 w"

text \<open>\<^verbatim>\<open>__call__\<close>.\<close>

definition call ::
  "(nat \<Rightarrow> child) \<Rightarrow> command \<Rightarrow> string list \<Rightarrow> kwargs \<Rightarrow> world
     \<Rightarrow> (int option, command \<times> world) outcome" where
  "call children self arguments kw w =
     (case get_output children self arguments kw w of
        Returns r (self', w') \<Rightarrow> Returns (ret self') (self', w')
      | Raises e s \<Rightarrow> Raises e s
      | Select_waits s \<Rightarrow> Select_waits s
      | Read_blocks s \<Rightarrow> Read_blocks s)"


section \<open>Signal forwarding\<close>

text \<open>
  What \<^verbatim>\<open>signal.getsignal\<close> can return: the two dispositions, \<^verbatim>\<open>None\<close> for a handler
  that was not installed from Python, a callable of the program, or a handler installed
  by \<^verbatim>\<open>enable_signal_forwarding\<close>, a closure over the signal and the handler it
  replaced. The closure refers to the command object; the object's state at the time of
  the delivery is the argument \<open>self\<close>.
\<close>

datatype sig_handler =
    SIG_DFL
  | SIG_IGN
  | No_python_handler
  | User_callable "int \<Rightarrow> world \<Rightarrow> (unit, world) outcome"
  | Forwarding int sig_handler

fun callable :: "sig_handler \<Rightarrow> bool" where
  "callable (User_callable f) = True"
| "callable (Forwarding signal_id old_handler) = True"
| "callable h = False"

fun is_SIG_DFL :: "sig_handler \<Rightarrow> bool" where
  "is_SIG_DFL SIG_DFL = True"
| "is_SIG_DFL h = False"

text \<open>Calling a handler; for a forwarding handler this is the body of \<^verbatim>\<open>_handler\<close>.\<close>

fun call_sig_handler :: "sig_handler \<Rightarrow> command \<Rightarrow> int \<Rightarrow> world \<Rightarrow> (unit, world) outcome" where
  "call_sig_handler (Forwarding signal_id old_handler) self sig w =
     (let w1 = (case pipe self of
                  Some p \<Rightarrow> w\<lparr>events := events w @ [Send_signal p signal_id]\<rparr>
                | None \<Rightarrow> w)
      in
      if callable old_handler then call_sig_handler old_handler self sig w1
      else if is_SIG_DFL old_handler \<and> signal_id = SIGTERM
        then Raises (SystemExit (128 + signal_id)) w1
      else Returns () w1)"
| "call_sig_handler (User_callable f) self sig w = f sig w"
| "call_sig_handler h self sig w = Raises TypeError w"

definition enable_signal_forwarding :: "int \<Rightarrow> (int \<Rightarrow> sig_handler) \<Rightarrow> (int \<Rightarrow> sig_handler)" where
  "enable_signal_forwarding signal_id handlers =
     handlers(signal_id := Forwarding signal_id (handlers signal_id))"

text \<open>The delivery of a signal whose handler is a Python callable.\<close>

definition deliver ::
  "(int \<Rightarrow> sig_handler) \<Rightarrow> command \<Rightarrow> int \<Rightarrow> world \<Rightarrow> (unit, world) outcome" where
  "deliver handlers self sig w = call_sig_handler (handlers sig) self sig w"


section \<open>Attempts, their results and their traces\<close>

text \<open>
  The run of the draining loop of one attempt of \<^verbatim>\<open>get_output\<close> on a child, whether it
  comes to its end, and what the two collecting handlers have received when it does.
\<close>

definition attempt_run :: "child \<Rightarrow> (unit, loop_state) outcome" where
  "attempt_run c = pipe_processor_loop (start_loop c Append_out Append_err)"

definition completes :: "child \<Rightarrow> bool" where
  "completes c = (case attempt_run c of Returns u st \<Rightarrow> True | _ \<Rightarrow> False)"

definition lines_for :: "handler \<Rightarrow> calls \<Rightarrow> ustr list" where
  "lines_for h cs = map snd (filter (\<lambda>c. fst c = h) cs)"

definition captured_lines :: "handler \<Rightarrow> child \<Rightarrow> ustr list" where
  "captured_lines h c = (case attempt_run c of Returns u st \<Rightarrow> lines_for h (called st) | _ \<Rightarrow> [])"

definition captured :: "handler \<Rightarrow> child \<Rightarrow> ustr" where
  "captured h c = join [NL] (captured_lines h c)"

definition failure_of :: "child \<Rightarrow> failure" where
  "failure_of c =
     \<lparr>f_ret = Some (returncode c), f_out = Some (captured Append_out c),
      f_err = Some (captured Append_err c)\<rparr>"

definition after_attempt :: "command \<Rightarrow> child \<Rightarrow> command" where
  "after_attempt self c =
     self\<lparr>ret := Some (returncode c), out := Some (captured Append_out c),
          err := Some (captured Append_err c), pipe := None\<rparr>"

text \<open>
  A loop state calls handlers of a set only: its readers hold handlers of the set, and
  the calls recorded so far are calls of handlers of the set.
\<close>

definition calls_within :: "handler set \<Rightarrow> loop_state \<Rightarrow> bool" where
  "calls_within H st =
     ((\<forall>s. \<exists>h \<in> H. slp_handler (objs st s) = call_handler h) \<and> fst ` set (called st) \<subseteq> H)"

text \<open>The events of the launch of process \<open>p\<close>: its creation and the writing of its input.\<close>

definition launch_events :: "command \<Rightarrow> string list \<Rightarrow> kwargs \<Rightarrow> nat \<Rightarrow> event list" where
  "launch_events self arguments kw p =
     Popen (command_line self arguments) (shell self) (env self)
       (case kw_close_fds kw of Some v \<Rightarrow> v | None \<Rightarrow> close_fds self)
     # (case kw_stdin kw of None \<Rightarrow> [] | Some d \<Rightarrow> if d \<noteq> [] then [Stdin_write p d] else [])"

text \<open>The world after an attempt of \<^verbatim>\<open>get_output\<close> whose draining loop came to its end.\<close>

definition attempt_world ::
  "(nat \<Rightarrow> child) \<Rightarrow> command \<Rightarrow> string list \<Rightarrow> kwargs \<Rightarrow> world \<Rightarrow> world" where
  "attempt_world children self arguments kw w =
     \<lparr>spawned = Suc (spawned w),
      events = events w @ launch_events self arguments kw (spawned w),
      out_list = captured_lines Append_out (children (spawned w)),
      err_list = captured_lines Append_err (children (spawned w))\<rparr>"

text \<open>
  The events of a failed attempt number \<open>i\<close> that is tried again: the launch, the call of
  the retry handler \<open>h\<close> and the sleep.
\<close>

definition retried_attempt_events ::
  "(nat \<Rightarrow> child) \<Rightarrow> command \<Rightarrow> string list \<Rightarrow> kwargs \<Rightarrow> nat \<Rightarrow> nat \<Rightarrow> nat \<Rightarrow> event list" where
  "retried_attempt_events children self arguments kw h p0 i =
     launch_events self arguments kw (p0 + i)
     @ [Retry_handler_call h (after_attempt self (children (p0 + i))) arguments kw (int i)
          (CommandFailedException (failure_of (children (p0 + i)))),
        Sleep (retry_sleep self)]"

text \<open>
  The events of a call of \<^verbatim>\<open>get_output\<close> with \<open>R\<close> retried attempts and a last one, from
  the process number \<open>p0\<close> on.
\<close>

definition retry_trace ::
  "(nat \<Rightarrow> child) \<Rightarrow> command \<Rightarrow> string list \<Rightarrow> kwargs \<Rightarrow> nat \<Rightarrow> nat \<Rightarrow> nat \<Rightarrow> event list" where
  "retry_trace children self arguments kw h p0 R =
     concat (map (retried_attempt_events children self arguments kw h p0) [0..<R])
     @ launch_events self arguments kw (p0 + R)"

fun is_popen :: "event \<Rightarrow> bool" where
  "is_popen (Popen c sh e cf) = True"
| "is_popen ev = False"

fun is_retry_call :: "event \<Rightarrow> bool" where
  "is_retry_call (Retry_handler_call h self arguments kw attempt exc) = True"
| "is_retry_call ev = False"

fun is_sleep :: "event \<Rightarrow> bool" where
  "is_sleep (Sleep d) = True"
| "is_sleep ev = False"

text \<open>Whether exit codes are checked in a call, and the exit codes it accepts.\<close>

definition check_enabled :: "command \<Rightarrow> kwargs \<Rightarrow> bool" where
  "check_enabled self kw = (case kw_check kw of Some v \<Rightarrow> v | None \<Rightarrow> check self)"

definition accepted_codes :: "command \<Rightarrow> kwargs \<Rightarrow> int list" where
  "accepted_codes self kw = (case kw_allowed_retval kw of Some v \<Rightarrow> v | None \<Rightarrow> allowed_retval self)"

text \<open>
  An attempt on a child fails the exit-code policy of a call when its draining loop comes
  to its end and the exit code of the child is not among the accepted ones.
\<close>

definition fails :: "command \<Rightarrow> kwargs \<Rightarrow> child \<Rightarrow> bool" where
  "fails self kw c = (completes c \<and> returncode c \<notin> set (accepted_codes self kw))"

text \<open>
  The state of a stream at its end: the child has closed it, everything written has been
  read, and the reader has closed its file. A loop state is ready to drain when its
  readers are distinct and their files are open. A schedule is free of fatal failures when
  a wait fails in it with \<open>EINTR\<close> only, and it closes a stream when the stream is closed
  already or a later arrival closes it.
\<close>

definition eof_reached :: "pipe_end \<Rightarrow> bool" where
  "eof_reached p = (writer_closed p \<and> pending p = [] \<and> reader_closed p)"

definition ready_to_drain :: "loop_state \<Rightarrow> bool" where
  "ready_to_drain st =
     (distinct (processors st) \<and> (\<forall>s \<in> set (processors st). \<not> reader_closed (pipes st s)))"

definition no_fatal :: "step list \<Rightarrow> bool" where
  "no_fatal f = (\<forall>x \<in> set f. select_errno x = None \<or> select_errno x = Some EINTR)"

definition will_close :: "kernel \<Rightarrow> step list \<Rightarrow> stream_id \<Rightarrow> bool" where
  "will_close k f s = (writer_closed (k s) \<or> Close s \<in> set (concat (map arrivals f)))"

text \<open>Example values: a command, a world, a call without overrides, and a child.\<close>

definition idle_command :: command where
  "idle_command =
     \<lparr>cmd = ''/bin/false'', args = [], shell = False, close_fds = True, check = True,
      allowed_retval = [0], retry_times = 1, retry_sleep = 2, retry_handler = Some 7,
      env = None, out_handler = Logging_handler 20 None, err_handler = Logging_handler 30 None,
      pipe = None, ret = None, out = None, err = None\<rparr>"

definition new_world :: world where
  "new_world = \<lparr>spawned = 0, events = [], out_list = [], err_list = []\<rparr>"

definition no_kwargs :: kwargs where
  "no_kwargs =
     \<lparr>kw_stdin = None, kw_check = None, kw_allowed_retval = None, kw_close_fds = None,
      kw_out_handler = None, kw_err_handler = None, kw_unknown = []\<rparr>"

definition once_command :: command where
  "once_command = idle_command\<lparr>retry_times := 0\<rparr>"

text \<open>Every process behaves like the child \<open>c\<close>.\<close>

definition every_child :: "child \<Rightarrow> nat \<Rightarrow> child" where
  "every_child c n = c"

text \<open>
  The child writes \<^verbatim>\<open>ok\<close> and a newline on its output and \<^verbatim>\<open>e\<close> on its error stream,
  closes both and exits with the given code.
\<close>

definition talking_child :: "int \<Rightarrow> child" where
  "talking_child rc =
     \<lparr>schedule =
        [\<lparr>arrivals = [Write Stdout [0x6F, 0x6B, 0x0A], Write Stderr [0x65]], select_errno = None\<rparr>,
         \<lparr>arrivals = [Close Stdout, Close Stderr], select_errno = None\<rparr>],
      returncode = rc\<rparr>"


section \<open>Splitting and joining\<close>

lemma split_on_not_Nil: "split_on c xs \<noteq> []"
  by (induction xs) (auto split: list.splits)

lemma split_on_no_sep: "c \<notin> set xs \<Longrightarrow> split_on c xs = [xs]"
  by (induction xs) auto

lemma split_on_append:
  "split_on c (xs @ ys) = butlast (split_on c xs) @ split_on c (last (split_on c xs) @ ys)"
proof (induction xs)
  case Nil
  then show ?case by simp
next
  case (Cons x xs)
  show ?case
  proof (cases "x = c")
    case True
    then show ?thesis using Cons split_on_not_Nil [of c xs] by simp
  next
    case False
    obtain l ls where s: "split_on c xs = l # ls"
      using split_on_not_Nil [of c xs] by (cases "split_on c xs") auto
    show ?thesis
    proof (cases ls)
      case Nil
      then show ?thesis using False s Cons by simp
    next
      case (Cons l' ls')
      then show ?thesis using False s Cons.IH
        by (simp split: list.splits)
    qed
  qed
qed

lemma last_split_on_no_sep: "c \<notin> set (last (split_on c xs))"
  by (induction xs) (auto simp: split_on_not_Nil split: list.splits)

lemma join_split_on: "join [c] (split_on c xs) = xs"
proof (induction xs)
  case Nil
  then show ?case by simp
next
  case (Cons x xs)
  obtain l ls where s: "split_on c xs = l # ls"
    using split_on_not_Nil [of c xs] by (cases "split_on c xs") auto
  show ?case using Cons s by (cases ls) auto
qed

lemma fold_record_line: "fold record_line ls calls = calls @ ls"
  by (induction ls arbitrary: calls) (auto simp: record_line_def)

lemma utf8_decode_ascii: "\<forall>b \<in> set bs. unat b < 0x80 \<Longrightarrow> utf8_decode bs = map unat bs"
  by (induction bs) auto

lemma utf8_decode_ascii_chunks:
  "\<forall>d \<in> set chunks. \<forall>b \<in> set d. unat b < 0x80 \<Longrightarrow>
   concat (map utf8_decode chunks) = utf8_decode (concat chunks)"
proof -
  assume a: "\<forall>d \<in> set chunks. \<forall>b \<in> set d. unat b < 0x80"
  then have "\<forall>b \<in> set (concat chunks). unat b < 0x80"
    by auto
  then have whole: "utf8_decode (concat chunks) = map unat (concat chunks)"
    by (rule utf8_decode_ascii)
  have "concat (map utf8_decode chunks) = concat (map (map unat) chunks)"
    using a by (induction chunks) (auto simp: utf8_decode_ascii)
  then show ?thesis
    using whole by (simp add: map_concat)
qed


section \<open>The lines a reader delivers\<close>

text \<open>
  Whatever the chunks are, a reader hands its handler the pieces of the text it has
  accumulated: the decodings of the chunks, one after the other, split at the newlines.
\<close>

lemma reads_general:
  "[] \<notin> set chunks \<Longrightarrow> NL \<notin> set (slp_buf p) \<Longrightarrow>
   reads chunks p st
     = fold (slp_handler p) (split_on NL (slp_buf p @ concat (map utf8_decode chunks))) st"
proof (induction chunks arbitrary: p st)
  case Nil
  then show ?case by (simp add: process_def split_on_no_sep)
next
  case (Cons d ds)
  let ?b = "slp_buf p @ utf8_decode d"
  from Cons.prems have d: "d \<noteq> []" and ds: "[] \<notin> set ds" by auto
  show ?case
  proof (cases "NL \<in> set ?b")
    case False
    then have "reads (d # ds) p st = reads ds (p\<lparr>slp_buf := ?b\<rparr>) st"
      using d by (simp add: process_def)
    also have "\<dots> = fold (slp_handler p) (split_on NL (?b @ concat (map utf8_decode ds))) st"
      using Cons.IH [OF ds, of "p\<lparr>slp_buf := ?b\<rparr>" st] False by simp
    finally show ?thesis by simp
  next
    case True
    let ?tmp = "split_on NL ?b"
    let ?p = "p\<lparr>slp_buf := last ?tmp\<rparr>"
    let ?st = "fold (slp_handler p) (butlast ?tmp) st"
    have "reads (d # ds) p st = reads ds ?p ?st"
      using d True by (simp add: process_def Let_def)
    also have "\<dots> = fold (slp_handler p) (split_on NL (last ?tmp @ concat (map utf8_decode ds))) ?st"
      using Cons.IH [OF ds, of ?p ?st] last_split_on_no_sep [of NL ?b] by simp
    also have "\<dots> = fold (slp_handler p) (split_on NL (?b @ concat (map utf8_decode ds))) st"
      by (subst (2) split_on_append) simp
    finally show ?thesis by simp
  qed
qed

lemma reads_new:
  "[] \<notin> set chunks \<Longrightarrow>
   reads chunks (new_StreamLineProcessor h) st
     = fold h (split_on NL (concat (map utf8_decode chunks))) st"
  using reads_general [of chunks "new_StreamLineProcessor h" st]
  by (simp add: new_StreamLineProcessor_def NL_def)

text \<open>
  C1, as stated, for the recording handler: the lines delivered over any split into non-empty
  chunks are the newline split of the decoding of the whole stream. It fails on the two
  bytes of U+00E9 read one at a time: each byte alone is undecodable and is replaced, so
  the handler receives two replacement characters where the whole stream holds one
  letter.
\<close>

theorem process_split_multibyte_counterexample:
  "[] \<notin> set [[0xC3], [0xA9 :: byte]]
   \<and> reads [[0xC3], [0xA9]] (new_StreamLineProcessor record_line) []
       \<noteq> split_on NL (utf8_decode (concat [[0xC3], [0xA9]]))"
  by (simp add: process_def new_StreamLineProcessor_def record_line_def NL_def
      REPLACEMENT_def is_cont_def)

text \<open>
  C1, amended: for every byte stream and every split of it into successive non-empty chunks
  whose separate decodings make up the decoding of the whole stream (no chunk ends inside a
  multi-byte sequence; every split of an ASCII stream is such a split), the handler is
  called with the pieces of the newline split of the decoded stream, in order: once per
  completed line and, at the end of the stream, exactly once more with the last fragment,
  empty or not.
\<close>

theorem process_delivers_lines:
  assumes "[] \<notin> set chunks"
    and "concat (map utf8_decode chunks) = utf8_decode (concat chunks)"
  shows "reads chunks (new_StreamLineProcessor h) st
           = h (last (split_on NL (utf8_decode (concat chunks))))
               (fold h (butlast (split_on NL (utf8_decode (concat chunks)))) st)"
proof -
  let ?L = "split_on NL (utf8_decode (concat chunks))"
  have "reads chunks (new_StreamLineProcessor h) st = fold h ?L st"
    using reads_new [OF assms(1), of h st] assms(2) by simp
  also have "\<dots> = fold h (butlast ?L @ [last ?L]) st"
    using split_on_not_Nil [of NL "utf8_decode (concat chunks)"] by simp
  finally show ?thesis by simp
qed

theorem process_delivers_lines_witness:
  "[] \<notin> set [[0x61, 0x0A, 0x62], [0x63 :: byte]]
   \<and> concat (map utf8_decode [[0x61, 0x0A, 0x62], [0x63]])
       = utf8_decode (concat [[0x61, 0x0A, 0x62], [0x63]])
   \<and> reads [[0x61, 0x0A, 0x62], [0x63]] (new_StreamLineProcessor record_line) []
       = [[0x61], [0x62, 0x63]]"
  using process_delivers_lines [of "[[0x61, 0x0A, 0x62], [0x63]]" record_line "[]"]
  by (simp add: record_line_def NL_def)


section \<open>Quoting round trip\<close>

lemma sh_unquote_from_open:
  "xs \<noteq> [] \<Longrightarrow> sh_unquote_from False (CHR 0x27 # xs) = sh_unquote_from True xs"
  by (cases xs) auto

lemma sh_unquote_from_quoted:
  "sh_unquote_from True
     (replace1 (CHR 0x27) [CHR 0x27, CHR 0x5C, CHR 0x27, CHR 0x27] s @ CHR 0x27 # rest)
   = map_option ((@) s) (sh_unquote_from False rest)"
proof (induction s)
  case Nil
  then show ?case by (simp add: replace1_def option.map_ident)
next
  case (Cons c cs)
  then show ?case
    by (auto simp: replace1_def sh_unquote_from_open option.map_comp comp_def)
qed

text \<open>
  C4: for every string, removing the quotes from its quoted form as a POSIX shell does gives
  the string back (strings free of null bytes included); the quoted form is the string
  between single quotes, with every single quote of the string written as closing quote,
  backslash, quote, opening quote.
\<close>

theorem shell_quote_round_trip:
  "sh_unquote (shell_quote s) = Some s
   \<and> shell_quote s
       = [CHR 0x27]
         @ concat (map (\<lambda>c. if c = CHR 0x27 then [CHR 0x27, CHR 0x5C, CHR 0x27, CHR 0x27] else [c]) s)
         @ [CHR 0x27]"
proof
  show "sh_unquote (shell_quote s) = Some s"
    by (simp add: sh_unquote_def shell_quote_def sh_unquote_from_open sh_unquote_from_quoted)
next
  show "shell_quote s
       = [CHR 0x27]
         @ concat (map (\<lambda>c. if c = CHR 0x27 then [CHR 0x27, CHR 0x5C, CHR 0x27, CHR 0x27] else [c]) s)
         @ [CHR 0x27]"
    by (simp add: shell_quote_def replace1_def)
qed


section \<open>What the loop calls and raises\<close>

lemma fold_call_handler: "fold (call_handler h) ls cs = cs @ map (Pair h) ls"
  by (induction ls arbitrary: cs) (auto simp: call_handler_def)

lemma process_call_handler:
  assumes "slp_handler p = call_handler h" and "process d p cs = (eof, p', cs')"
  shows "slp_handler p' = call_handler h \<and> (\<exists>ls. cs' = cs @ map (Pair h) ls)"
proof (cases "d = []")
  case True
  then have "p' = p" and "cs' = cs @ map (Pair h) [slp_buf p]"
    using assms by (auto simp: process_def call_handler_def)
  then show ?thesis using assms(1) by (intro conjI exI [of _ "[slp_buf p]"]) auto
next
  case False
  show ?thesis
  proof (cases "NL \<in> set (slp_buf p @ utf8_decode d)")
    case True
    then have "slp_handler p' = slp_handler p"
      and "cs' = cs @ map (Pair h) (butlast (split_on NL (slp_buf p @ utf8_decode d)))"
      using assms False by (auto simp: process_def Let_def fold_call_handler)
    then show ?thesis using assms(1)
      by (intro conjI exI [of _ "butlast (split_on NL (slp_buf p @ utf8_decode d))"]) auto
  next
    case F: False
    then have "slp_handler p' = slp_handler p" and "cs' = cs @ map (Pair h) []"
      using assms False by (auto simp: process_def Let_def)
    then show ?thesis using assms(1) by (intro conjI exI [of _ "[]"]) auto
  qed
qed

lemma for_ready_calls_within:
  "calls_within H st \<Longrightarrow>
   (case for_ready r st of
      Returns u st' \<Rightarrow> calls_within H st'
    | Raises e st' \<Rightarrow> calls_within H st' \<and> e = ValueError
    | Select_waits st' \<Rightarrow> False
    | Read_blocks s \<Rightarrow> True)"
proof (induction r arbitrary: st)
  case Nil
  then show ?case by simp
next
  case (Cons s rest)
  show ?case
  proof (cases "os_read (pipes st) s")
    case (Read_ok d k')
    obtain eof p' cs' where pr: "process d (objs st s) (called st) = (eof, p', cs')"
      by (cases "process d (objs st s) (called st)") auto
    from Cons.prems have "\<exists>h \<in> H. slp_handler (objs st s) = call_handler h"
      by (simp add: calls_within_def)
    then obtain h where h: "h \<in> H" "slp_handler (objs st s) = call_handler h"
      by blast
    from process_call_handler [OF h(2) pr] obtain ls
      where p': "slp_handler p' = call_handler h" and cs': "cs' = called st @ map (Pair h) ls"
      by auto
    have cw: "\<And>k ps. calls_within H (st\<lparr>pipes := k, objs := (objs st)(s := p'), called := cs',
                   processors := ps\<rparr>)"
      using Cons.prems h(1) p' cs' by (auto simp: calls_within_def)
    have cw2: "\<And>k. calls_within H (st\<lparr>pipes := k, objs := (objs st)(s := p'), called := cs'\<rparr>)"
      using Cons.prems h(1) p' cs' by (auto simp: calls_within_def)
    show ?thesis
    proof (cases eof)
      case True
      then show ?thesis using Read_ok pr Cons.IH [OF cw] by simp
    next
      case False
      then show ?thesis using Read_ok pr Cons.IH [OF cw2] by simp
    qed
  next
    case Read_would_block
    then show ?thesis by simp
  next
    case Read_closed_file
    then show ?thesis using Cons.prems by simp
  qed
qed

lemma calls_within_pipes_future [simp]:
  "calls_within H (st\<lparr>pipes := k, future := f\<rparr>) = calls_within H st"
  by (simp add: calls_within_def)

lemma pipe_processor_loop_calls_within:
  "calls_within H st \<Longrightarrow>
   (case pipe_processor_loop st of
      Returns u st' \<Rightarrow> calls_within H st'
    | Raises e st' \<Rightarrow> calls_within H st' \<and> (e = ValueError \<or> (\<exists>n. e = Select_error n))
    | Select_waits st' \<Rightarrow> calls_within H st'
    | Read_blocks s \<Rightarrow> True)"
proof (induction st rule: pipe_processor_loop.induct)
  case (1 st)
  show ?case
  proof (cases "processors st = []")
    case True
    then show ?thesis using "1.prems" by (simp add: pipe_processor_loop.simps [of st])
  next
    case False
    obtain r f k where sel: "select (future st) (pipes st) (processors st) = (r, f, k)"
      by (cases "select (future st) (pipes st) (processors st)") auto
    let ?st = "st\<lparr>pipes := k, future := f\<rparr>"
    have cw: "calls_within H ?st" using "1.prems" by simp
    show ?thesis
    proof (cases r)
      case (Ready ready)
      show ?thesis
      proof (cases "for_ready ready ?st")
        case (Returns u st')
        then have "calls_within H st'"
          using for_ready_calls_within [OF cw, of ready] by simp
        then show ?thesis
          using "1.IH"(1) [OF False sel [symmetric] Ready refl Returns] Returns False sel Ready
          by (simp add: pipe_processor_loop.simps [of st])
      next
        case (Raises e st')
        then show ?thesis
          using for_ready_calls_within [OF cw, of ready] False sel Ready
          by (simp add: pipe_processor_loop.simps [of st])
      next
        case (Select_waits st')
        then show ?thesis
          using for_ready_calls_within [OF cw, of ready] by simp
      next
        case (Read_blocks s)
        then show ?thesis using False sel Ready
          by (simp add: pipe_processor_loop.simps [of st])
      qed
    next
      case (Select_fails e)
      show ?thesis
      proof (cases "e = EINTR")
        case True
        then show ?thesis
          using "1.IH"(2) [OF False sel [symmetric] Select_fails refl True cw] False sel Select_fails
          by (simp add: pipe_processor_loop.simps [of st])
      next
        case F: False
        then show ?thesis using False sel Select_fails cw
          by (simp add: pipe_processor_loop.simps [of st])
      qed
    next
      case Closed_file
      then show ?thesis using False sel cw
        by (simp add: pipe_processor_loop.simps [of st])
    next
      case Waits
      then show ?thesis using False sel cw
        by (simp add: pipe_processor_loop.simps [of st])
    qed
  qed
qed


section \<open>One attempt\<close>

lemma run_calls_append [simp]: "run_calls (cs @ cs') w = run_calls cs' (run_calls cs w)"
  by (simp add: run_calls_def)

lemma run_calls_collectors:
  "fst ` set cs \<subseteq> {Append_out, Append_err} \<Longrightarrow>
   run_calls cs w
     = w\<lparr>out_list := out_list w @ lines_for Append_out cs,
          err_list := err_list w @ lines_for Append_err cs\<rparr>"
proof (induction cs arbitrary: w)
  case Nil
  then show ?case by (simp add: run_calls_def lines_for_def)
next
  case (Cons c cs)
  obtain h l where c: "c = (h, l)" by (cases c)
  from Cons.prems c have h: "h = Append_out \<or> h = Append_err" by auto
  have "run_calls (c # cs) w = run_calls cs (run_handler h l w)"
    using c by (simp add: run_calls_def)
  also have "\<dots> = (run_handler h l w)\<lparr>out_list := out_list (run_handler h l w) @ lines_for Append_out cs,
          err_list := err_list (run_handler h l w) @ lines_for Append_err cs\<rparr>"
    using Cons.IH [of "run_handler h l w"] Cons.prems by simp
  finally show ?case using h c by (auto simp: lines_for_def)
qed

lemma calls_within_start_loop: "calls_within {out_h, err_h} (start_loop c out_h err_h)"
  by (auto simp: calls_within_def start_loop_def new_StreamLineProcessor_def split: stream_id.splits)

lemma attempt_run_called:
  "attempt_run c = Returns u st \<Longrightarrow> fst ` set (called st) \<subseteq> {Append_out, Append_err}"
  using pipe_processor_loop_calls_within [OF calls_within_start_loop [of Append_out Append_err c]]
  by (simp add: attempt_run_def calls_within_def)

lemma attempt_run_Raises:
  "attempt_run c = Raises e st \<Longrightarrow> e = ValueError \<or> (\<exists>n. e = Select_error n)"
  using pipe_processor_loop_calls_within [OF calls_within_start_loop [of Append_out Append_err c]]
  by (simp add: attempt_run_def)

lemma get_output_once_completes:
  assumes "kw_unknown kw = []" and "kw_out_handler kw = None" and "kw_err_handler kw = None"
    and "completes (children (spawned w))"
  shows "get_output_once children self arguments kw w
           = (if check_enabled self kw
                  \<and> returncode (children (spawned w)) \<notin> set (accepted_codes self kw)
              then Raises (CommandFailedException (failure_of (children (spawned w))))
                     (after_attempt self (children (spawned w)),
                      attempt_world children self arguments kw w)
              else Returns (captured Append_out (children (spawned w)),
                            captured Append_err (children (spawned w)))
                     (after_attempt self (children (spawned w)),
                      attempt_world children self arguments kw w))"
proof -
  let ?c = "children (spawned w)"
  from assms(4) obtain u st where run: "attempt_run ?c = Returns u st"
    by (auto simp: completes_def split: outcome.splits)
  have loop: "pipe_processor_loop (start_loop ?c Append_out Append_err) = Returns u st"
    using run by (simp add: attempt_run_def)
  let ?w2 = "write_stdin (kw_stdin kw) (spawned w)
               (snd (build_pipe (self\<lparr>ret := None, out := None, err := None\<rparr>) arguments
                  (case kw_close_fds kw of Some v \<Rightarrow> v | None \<Rightarrow> close_fds self)
                  (w\<lparr>out_list := [], err_list := []\<rparr>)))"
  have cl: "command_line (self\<lparr>ret := None, out := None, err := None\<rparr>) arguments
              = command_line self arguments"
    by (simp add: command_line_def Let_def)
  have w2: "?w2 = \<lparr>spawned = Suc (spawned w),
                   events = events w @ launch_events self arguments kw (spawned w),
                   out_list = [], err_list = []\<rparr>"
    by (simp add: launch_events_def write_stdin_def build_pipe_def cl split: option.splits)
  have w3: "run_calls (called st) ?w2 = attempt_world children self arguments kw w"
    unfolding w2
    using run_calls_collectors [OF attempt_run_called [OF run]] run
    by (simp add: attempt_world_def captured_lines_def)
  have ex: "execute children self arguments
              (kw\<lparr>kw_check := None, kw_allowed_retval := None, kw_out_handler := Some Append_out,
                  kw_err_handler := Some Append_err, kw_check := Some False\<rparr>)
              (w\<lparr>out_list := [], err_list := []\<rparr>)
            = Returns (returncode ?c)
                (self\<lparr>ret := Some (returncode ?c), out := None, err := None, pipe := None\<rparr>,
                 attempt_world children self arguments kw w)"
    using assms(1) loop w3
    by (simp add: execute_def Let_def build_pipe_def)
  have lines: "out_list (attempt_world children self arguments kw w) = captured_lines Append_out ?c"
    "err_list (attempt_world children self arguments kw w) = captured_lines Append_err ?c"
    by (simp_all add: attempt_world_def)
  show ?thesis
    using assms(2,3) ex lines
    by (simp add: get_output_once_def Let_def check_return_value_def check_enabled_def
        accepted_codes_def after_attempt_def failure_of_def captured_def)
qed

lemma get_output_once_CommandFailedException:
  assumes "get_output_once children self arguments kw w
             = Raises (CommandFailedException d) (self', w')"
  shows "completes (children (spawned w))
         \<and> kw_unknown kw = [] \<and> kw_out_handler kw = None \<and> kw_err_handler kw = None
         \<and> check_enabled self kw
         \<and> returncode (children (spawned w)) \<notin> set (accepted_codes self kw)
         \<and> d = failure_of (children (spawned w))
         \<and> self' = after_attempt self (children (spawned w))
         \<and> w' = attempt_world children self arguments kw w"
proof -
  let ?c = "children (spawned w)"
  have h: "kw_out_handler kw = None" "kw_err_handler kw = None"
    using assms by (auto simp: get_output_once_def Let_def split: if_splits)
  have u: "kw_unknown kw = []"
    using assms h by (auto simp: get_output_once_def execute_def Let_def split: if_splits)
  have c: "completes ?c"
  proof (cases "attempt_run ?c")
    case (Returns u st)
    then show ?thesis by (simp add: completes_def)
  next
    case (Raises e st)
    then have "e = ValueError \<or> (\<exists>n. e = Select_error n)"
      by (rule attempt_run_Raises)
    then show ?thesis
      using assms h u Raises
      by (auto simp: get_output_once_def execute_def Let_def attempt_run_def build_pipe_def
          split: if_splits)
  next
    case (Select_waits st)
    then show ?thesis
      using assms h u
      by (auto simp: get_output_once_def execute_def Let_def attempt_run_def build_pipe_def
          split: if_splits)
  next
    case (Read_blocks s)
    then show ?thesis
      using assms h u
      by (auto simp: get_output_once_def execute_def Let_def attempt_run_def build_pipe_def
          split: if_splits)
  qed
  show ?thesis
    using assms get_output_once_completes [of kw children w self arguments] h u c
    by (auto split: if_splits)
qed


section \<open>Signal forwarding without a child\<close>

text \<open>
  C5, as stated: with no live child the delivery is a no-op and does not raise, whatever
  the previous handler or disposition. It fails for the default disposition and
  \<open>SIGTERM\<close>: the handler leaves the controlling process with status 143.
\<close>

theorem forwarding_sigterm_default_counterexample:
  "pipe idle_command = None
   \<and> deliver (enable_signal_forwarding SIGTERM (\<lambda>sig. SIG_DFL)) idle_command SIGTERM new_world
       = Raises (SystemExit 143) new_world"
  by (simp add: idle_command_def deliver_def enable_signal_forwarding_def SIGTERM_def)

text \<open>
  C5, amended: after \<^verbatim>\<open>enable_signal_forwarding(signal_id)\<close>, the delivery of that signal
  while the command has no live child sends no signal to any process; the handler then
  does what chaining asks and nothing more: it calls the previous handler when that was
  a callable, it leaves the controlling process with status \<open>128 + signal_id\<close> when the
  previous disposition was the default and the signal is \<open>SIGTERM\<close>, and otherwise it
  returns without an effect and without raising.
\<close>

theorem forwarding_without_child:
  assumes "pipe self = None"
  shows "deliver (enable_signal_forwarding signal_id handlers) self signal_id w
           = (if callable (handlers signal_id)
              then call_sig_handler (handlers signal_id) self signal_id w
              else if is_SIG_DFL (handlers signal_id) \<and> signal_id = SIGTERM
                then Raises (SystemExit (128 + signal_id)) w
              else Returns () w)"
  using assms by (simp add: deliver_def enable_signal_forwarding_def)

theorem forwarding_without_child_witness:
  "pipe idle_command = None
   \<and> deliver (enable_signal_forwarding SIGTERM (\<lambda>sig. SIG_IGN)) idle_command SIGTERM new_world
       = Returns () new_world"
  using forwarding_without_child [of idle_command SIGTERM "\<lambda>sig. SIG_IGN" new_world]
  by (simp add: idle_command_def)

section \<open>Unknown overrides\<close>

lemma get_output_once_unknown:
  "kw_unknown kw \<noteq> [] \<Longrightarrow>
   get_output_once children self arguments kw w
     = Raises TypeError (self, w\<lparr>out_list := [], err_list := []\<rparr>)"
  by (simp add: get_output_once_def execute_def Let_def)

text \<open>
  C8: a call of \<^verbatim>\<open>execute\<close>, \<^verbatim>\<open>get_output\<close> or \<^verbatim>\<open>__call__\<close> with a named override
  outside the recognised set raises an error (\<^verbatim>\<open>TypeError\<close>) before any process is
  created: the count of created processes and the events are those before the call, and
  the command object is unchanged.
\<close>

theorem unknown_override_rejected:
  assumes "kw_unknown kw \<noteq> []"
  shows "execute children self arguments kw w = Raises TypeError (self, w)
         \<and> get_output children self arguments kw w
             = Raises TypeError (self, w\<lparr>out_list := [], err_list := []\<rparr>)
         \<and> call children self arguments kw w
             = Raises TypeError (self, w\<lparr>out_list := [], err_list := []\<rparr>)
         \<and> spawned (w\<lparr>out_list := [], err_list := []\<rparr>) = spawned w
         \<and> events (w\<lparr>out_list := [], err_list := []\<rparr>) = events w"
proof -
  have e: "execute children self arguments kw w = Raises TypeError (self, w)"
    using assms by (simp add: execute_def Let_def)
  have g: "get_output children self arguments kw w
             = Raises TypeError (self, w\<lparr>out_list := [], err_list := []\<rparr>)"
    using get_output_once_unknown [OF assms, of children self arguments w]
    by (simp add: get_output_def get_output_from.simps [of children self arguments kw 0 w])
  have c: "call children self arguments kw w
             = Raises TypeError (self, w\<lparr>out_list := [], err_list := []\<rparr>)"
    using g by (simp add: call_def)
  show ?thesis using e g c by simp
qed

theorem unknown_override_rejected_witness:
  "kw_unknown (no_kwargs\<lparr>kw_unknown := [''timeout'']\<rparr>) \<noteq> []
   \<and> execute (\<lambda>n. talking_child 0) idle_command [] (no_kwargs\<lparr>kw_unknown := [''timeout'']\<rparr>)
        new_world
       = Raises TypeError (idle_command, new_world)
   \<and> get_output (\<lambda>n. talking_child 0) idle_command [] (no_kwargs\<lparr>kw_unknown := [''timeout'']\<rparr>)
        new_world
       = Raises TypeError (idle_command, new_world)"
  using unknown_override_rejected
    [of "no_kwargs\<lparr>kw_unknown := [''timeout'']\<rparr>" "\<lambda>n. talking_child 0" idle_command "[]"
      new_world]
  by (simp add: new_world_def)


section \<open>The example child\<close>

lemma attempt_run_talking_child:
  "\<exists>st. attempt_run (talking_child rc) = Returns () st
        \<and> called st = [(Append_out, [0x6F, 0x6B]), (Append_out, []), (Append_err, [0x65])]"
  by (simp add: attempt_run_def talking_child_def start_loop_def new_pipe_def Let_def
      readable_def os_read_def process_def new_StreamLineProcessor_def close_reader_def
      call_handler_def NL_def pipe_processor_loop.simps)

lemma completes_talking_child: "completes (talking_child rc)"
  using attempt_run_talking_child [of rc] by (auto simp: completes_def)

lemma captured_talking_child:
  "captured Append_out (talking_child rc) = [0x6F, 0x6B, 0x0A]"
  "captured Append_err (talking_child rc) = [0x65]"
  using attempt_run_talking_child [of rc]
  by (auto simp: captured_def captured_lines_def lines_for_def NL_def)

lemma returncode_talking_child: "returncode (talking_child rc) = rc"
  by (simp add: talking_child_def)

section \<open>Calls without exit-code checking\<close>

lemma get_output_from_Returns:
  "get_output_once children self arguments kw w = Returns r s \<Longrightarrow>
   get_output_from children self arguments kw a w = Returns r s"
  by (simp add: get_output_from.simps [of children self arguments kw a w])

text \<open>
  C6: when exit-code checking is disabled for a call, a child that exits with any exit
  code, accepted or not, gives a successful return: \<^verbatim>\<open>get_output\<close> returns the captured
  output and error texts, no failure is raised, and the exit code of the child is
  recorded in the attribute \<^verbatim>\<open>ret\<close> of the command object (\<^verbatim>\<open>__call__\<close> returns it).
\<close>

theorem unchecked_call_returns:
  assumes "\<not> check_enabled self kw"
    and "kw_unknown kw = []" and "kw_out_handler kw = None" and "kw_err_handler kw = None"
    and "completes (children (spawned w))"
  shows "get_output children self arguments kw w
           = Returns (captured Append_out (children (spawned w)),
                      captured Append_err (children (spawned w)))
               (after_attempt self (children (spawned w)),
                attempt_world children self arguments kw w)
         \<and> call children self arguments kw w
           = Returns (Some (returncode (children (spawned w))))
               (after_attempt self (children (spawned w)),
                attempt_world children self arguments kw w)
         \<and> ret (after_attempt self (children (spawned w)))
           = Some (returncode (children (spawned w)))"
proof -
  have once: "get_output_once children self arguments kw w
           = Returns (captured Append_out (children (spawned w)),
                      captured Append_err (children (spawned w)))
               (after_attempt self (children (spawned w)),
                attempt_world children self arguments kw w)"
    using get_output_once_completes [of kw children w self arguments] assms by simp
  then have g: "get_output children self arguments kw w
           = Returns (captured Append_out (children (spawned w)),
                      captured Append_err (children (spawned w)))
               (after_attempt self (children (spawned w)),
                attempt_world children self arguments kw w)"
    by (simp add: get_output_def get_output_from_Returns)
  have r: "ret (after_attempt self (children (spawned w)))
           = Some (returncode (children (spawned w)))"
    by (simp add: after_attempt_def)
  show ?thesis using g r by (simp add: call_def)
qed

theorem unchecked_call_returns_witness:
  "\<not> check_enabled idle_command (no_kwargs\<lparr>kw_check := Some False\<rparr>)
   \<and> kw_unknown (no_kwargs\<lparr>kw_check := Some False\<rparr>) = []
   \<and> kw_out_handler (no_kwargs\<lparr>kw_check := Some False\<rparr>) = None
   \<and> kw_err_handler (no_kwargs\<lparr>kw_check := Some False\<rparr>) = None
   \<and> completes (talking_child 3)
   \<and> 3 \<notin> set (accepted_codes idle_command (no_kwargs\<lparr>kw_check := Some False\<rparr>))
   \<and> (case get_output (\<lambda>n. talking_child 3) idle_command []
               (no_kwargs\<lparr>kw_check := Some False\<rparr>) new_world of
         Returns r s \<Rightarrow> r = ([0x6F, 0x6B, 0x0A], [0x65]) \<and> ret (fst s) = Some 3
       | _ \<Rightarrow> False)"
  using unchecked_call_returns
    [of idle_command "no_kwargs\<lparr>kw_check := Some False\<rparr>" "\<lambda>n. talking_child 3" new_world "[]"]
    completes_talking_child [of 3] captured_talking_child [of 3]
  by (simp add: check_enabled_def no_kwargs_def accepted_codes_def idle_command_def
      after_attempt_def returncode_talking_child)


section \<open>Failed attempts\<close>

lemma get_output_from_failed:
  assumes "get_output_once children self arguments kw w
             = Raises (CommandFailedException d) (s1, w1)"
  shows "get_output_from children self arguments kw a w
           = (if a < retry_times s1 then
                (if retry_sleep s1 < 0
                 then Raises ValueError
                        (s1, call_retry_handler s1 arguments kw a (CommandFailedException d) w1)
                 else get_output_from children s1 arguments kw (a + 1)
                        ((call_retry_handler s1 arguments kw a (CommandFailedException d) w1)
                           \<lparr>events :=
                              events (call_retry_handler s1 arguments kw a
                                        (CommandFailedException d) w1)
                              @ [Sleep (retry_sleep s1)]\<rparr>))
              else if a = 0 then Raises (CommandFailedException d) (s1, w1)
              else Raises (CommandMaxRetryExceeded d) (s1, w1))"
  using assms by (simp add: get_output_from.simps [of children self arguments kw a w] Let_def)

lemma get_output_once_not_exhausted:
  "get_output_once children self arguments kw w \<noteq> Raises (CommandMaxRetryExceeded d) s"
proof
  assume a: "get_output_once children self arguments kw w = Raises (CommandMaxRetryExceeded d) s"
  let ?c = "children (spawned w)"
  obtain s1 w1 where s: "s = (s1, w1)" by (cases s)
  have h: "kw_out_handler kw = None" "kw_err_handler kw = None"
    using a by (auto simp: get_output_once_def Let_def split: if_splits)
  have u: "kw_unknown kw = []"
    using a h by (auto simp: get_output_once_def execute_def Let_def split: if_splits)
  show False
  proof (cases "attempt_run ?c")
    case (Returns u' st)
    then have "completes ?c" by (simp add: completes_def)
    then show False
      using a get_output_once_completes [of kw children w self arguments] h u
      by (auto split: if_splits)
  next
    case (Raises e st)
    then have "e = ValueError \<or> (\<exists>n. e = Select_error n)"
      by (rule attempt_run_Raises)
    then show False
      using a h u Raises
      by (auto simp: get_output_once_def execute_def Let_def attempt_run_def build_pipe_def
          split: if_splits)
  next
    case (Select_waits st)
    then show False
      using a h u
      by (auto simp: get_output_once_def execute_def Let_def attempt_run_def build_pipe_def
          split: if_splits)
  next
    case (Read_blocks x)
    then show False
      using a h u
      by (auto simp: get_output_once_def execute_def Let_def attempt_run_def build_pipe_def
          split: if_splits)
  qed
qed

lemma after_attempt_again [simp]:
  "after_attempt (after_attempt self c) c' = after_attempt self c'"
  by (simp add: after_attempt_def)

lemma after_attempt_fields [simp]:
  "retry_times (after_attempt self c) = retry_times self"
  "retry_sleep (after_attempt self c) = retry_sleep self"
  "retry_handler (after_attempt self c) = retry_handler self"
  "check (after_attempt self c) = check self"
  "allowed_retval (after_attempt self c) = allowed_retval self"
  "close_fds (after_attempt self c) = close_fds self"
  "ret (after_attempt self c) = Some (returncode c)"
  "out (after_attempt self c) = Some (captured Append_out c)"
  "err (after_attempt self c) = Some (captured Append_err c)"
  "pipe (after_attempt self c) = None"
  by (simp_all add: after_attempt_def)

lemma check_after_attempt [simp]:
  "check_enabled (after_attempt self c) kw = check_enabled self kw"
  "accepted_codes (after_attempt self c) kw = accepted_codes self kw"
  by (simp_all add: check_enabled_def accepted_codes_def split: option.splits)

lemma spawned_attempt_world [simp]:
  "spawned (attempt_world children self arguments kw w) = Suc (spawned w)"
  by (simp add: attempt_world_def)

lemma spawned_call_retry_handler [simp]:
  "spawned (call_retry_handler s arguments kw a e w) = spawned w"
  by (simp add: call_retry_handler_def split: option.splits)

text \<open>
  Whenever the loop of \<^verbatim>\<open>get_output\<close> ends with one of the two failures, the failure and
  the command object are those of the last attempt, the attempt on the process created
  last.
\<close>

lemma get_output_from_failure:
  "get_output_from children self arguments kw a w = Raises e (self', w') \<Longrightarrow>
   e = CommandFailedException d \<or> e = CommandMaxRetryExceeded d \<Longrightarrow>
   spawned w < spawned w'
   \<and> completes (children (spawned w' - 1))
   \<and> check_enabled self kw
   \<and> returncode (children (spawned w' - 1)) \<notin> set (accepted_codes self kw)
   \<and> d = failure_of (children (spawned w' - 1))
   \<and> self' = after_attempt self (children (spawned w' - 1))"
proof (induction children self arguments kw a w rule: get_output_from.induct)
  case (1 children self arguments kw attempt w)
  let ?once = "get_output_once children self arguments kw w"
  show ?case
  proof (cases ?once)
    case (Returns r s)
    then show ?thesis using "1.prems"(1)
      by (simp add: get_output_from.simps [of children self arguments kw attempt w])
  next
    case (Select_waits s)
    then show ?thesis using "1.prems"(1)
      by (simp add: get_output_from.simps [of children self arguments kw attempt w])
  next
    case (Read_blocks s)
    then show ?thesis using "1.prems"(1)
      by (simp add: get_output_from.simps [of children self arguments kw attempt w])
  next
    case (Raises exc s)
    obtain s1 w1 where s: "s = (s1, w1)" by (cases s)
    show ?thesis
    proof (cases "\<exists>d1. exc = CommandFailedException d1")
      case False
      then have "get_output_from children self arguments kw attempt w = Raises exc (s1, w1)"
        using Raises s
        by (cases exc)
          (simp_all add: get_output_from.simps [of children self arguments kw attempt w])
      then have "exc = e" using "1.prems"(1) by simp
      then show ?thesis
        using False "1.prems"(2) Raises get_output_once_not_exhausted [of children self arguments kw w d s]
        by auto
    next
      case True
      then obtain d1 where exc: "exc = CommandFailedException d1" by blast
      have once: "?once = Raises (CommandFailedException d1) (s1, w1)"
        using Raises s exc by simp
      note facts = get_output_once_CommandFailedException [OF once]
      let ?c = "children (spawned w)"
      have s1: "s1 = after_attempt self ?c" and w1: "w1 = attempt_world children self arguments kw w"
        and d1: "d1 = failure_of ?c"
        using facts by auto
      note step = get_output_from_failed [OF once, of attempt]
      show ?thesis
      proof (cases "attempt < retry_times s1")
        case False
        then have "self' = s1" and "w' = w1" and "d = d1"
          using step "1.prems" by (auto split: if_splits)
        then show ?thesis using facts s1 w1 d1 by simp
      next
        case True
        show ?thesis
        proof (cases "retry_sleep s1 < 0")
          case T: True
          then show ?thesis using step True "1.prems" by auto
        next
          case F: False
          let ?w = "(call_retry_handler s1 arguments kw attempt exc w1)
                      \<lparr>events := events (call_retry_handler s1 arguments kw attempt exc w1)
                                  @ [Sleep (retry_sleep s1)]\<rparr>"
          have rec: "get_output_from children s1 arguments kw (attempt + 1) ?w = Raises e (self', w')"
            using step True F "1.prems"(1) exc by simp
          have ih: "spawned ?w < spawned w'
                    \<and> completes (children (spawned w' - 1))
                    \<and> check_enabled s1 kw
                    \<and> returncode (children (spawned w' - 1)) \<notin> set (accepted_codes s1 kw)
                    \<and> d = failure_of (children (spawned w' - 1))
                    \<and> self' = after_attempt s1 (children (spawned w' - 1))"
            using "1.IH" [OF Raises [unfolded s] refl exc True refl F rec "1.prems"(2)] .
          show ?thesis
            using ih s1 w1 facts by simp
        qed
      qed
    qed
  qed
qed

lemma launch_events_after_attempt [simp]:
  "launch_events (after_attempt self c) arguments kw p = launch_events self arguments kw p"
  by (simp add: launch_events_def after_attempt_def command_line_def Let_def split: option.splits)

lemma events_attempt_world [simp]:
  "events (attempt_world children self arguments kw w)
     = events w @ launch_events self arguments kw (spawned w)"
  by (simp add: attempt_world_def)

lemma get_output_once_fails:
  assumes "check_enabled self kw"
    and "kw_unknown kw = []" and "kw_out_handler kw = None" and "kw_err_handler kw = None"
    and "fails self kw (children (spawned w))"
  shows "get_output_once children self arguments kw w
           = Raises (CommandFailedException (failure_of (children (spawned w))))
               (after_attempt self (children (spawned w)),
                attempt_world children self arguments kw w)"
  using get_output_once_completes [of kw children w self arguments] assms
  by (simp add: fails_def)

lemma all_attempts_fail:
  assumes "check_enabled self kw"
    and "kw_unknown kw = []" and "kw_out_handler kw = None" and "kw_err_handler kw = None"
    and "0 \<le> retry_sleep self" and "retry_handler self = Some h"
  shows "retry_times self = int (a + n) \<Longrightarrow>
         \<forall>i \<le> n. fails self kw (children (spawned w + i)) \<Longrightarrow>
         \<exists>w'. get_output_from children self arguments kw (int a) w
                 = Raises ((if a + n = 0 then CommandFailedException else CommandMaxRetryExceeded)
                             (failure_of (children (spawned w + n))))
                     (after_attempt self (children (spawned w + n)), w')
               \<and> spawned w' = spawned w + n + 1
               \<and> events w'
                   = events w
                     @ concat (map (\<lambda>i. launch_events self arguments kw (spawned w + i)
                                     @ [Retry_handler_call h
                                          (after_attempt self (children (spawned w + i)))
                                          arguments kw (int (a + i))
                                          (CommandFailedException
                                             (failure_of (children (spawned w + i)))),
                                        Sleep (retry_sleep self)])
                               [0..<n])
                     @ launch_events self arguments kw (spawned w + n)"
  using assms
proof (induction n arbitrary: a w self)
  case 0
  let ?c = "children (spawned w)"
  have f: "fails self kw ?c" using "0.prems"(2) by simp
  have once: "get_output_once children self arguments kw w
                = Raises (CommandFailedException (failure_of ?c))
                    (after_attempt self ?c, attempt_world children self arguments kw w)"
    using get_output_once_fails [of self kw children w arguments] "0.prems"(3,4,5,6) f by simp
  have "get_output_from children self arguments kw (int a) w
          = Raises ((if a = 0 then CommandFailedException else CommandMaxRetryExceeded)
                      (failure_of ?c))
              (after_attempt self ?c, attempt_world children self arguments kw w)"
    using get_output_from_failed [OF once, of "int a"] "0.prems"(1) by simp
  then show ?case by simp
next
  case (Suc n)
  let ?c = "children (spawned w)"
  let ?s1 = "after_attempt self ?c"
  let ?exc = "CommandFailedException (failure_of ?c)"
  let ?w1 = "attempt_world children self arguments kw w"
  let ?w2 = "(call_retry_handler ?s1 arguments kw (int a) ?exc ?w1)
               \<lparr>events := events (call_retry_handler ?s1 arguments kw (int a) ?exc ?w1)
                           @ [Sleep (retry_sleep ?s1)]\<rparr>"
  have f: "fails self kw ?c" using Suc.prems(2) by (metis add.right_neutral le0)
  have once: "get_output_once children self arguments kw w
                = Raises (CommandFailedException (failure_of ?c))
                    (after_attempt self ?c, attempt_world children self arguments kw w)"
    using get_output_once_fails [of self kw children w arguments] Suc.prems(3,4,5,6) f by simp
  have step: "get_output_from children self arguments kw (int a) w
                = get_output_from children ?s1 arguments kw (int (Suc a)) ?w2"
    using get_output_from_failed [OF once, of "int a"] Suc.prems(1,7)
    by (simp add: add.commute)
  have sp: "spawned ?w2 = Suc (spawned w)" by simp
  have ev: "events ?w2 = events w @ launch_events self arguments kw (spawned w)
              @ [Retry_handler_call h ?s1 arguments kw (int a) ?exc, Sleep (retry_sleep self)]"
    using Suc.prems(8) by (simp add: call_retry_handler_def)
  have rt: "retry_times ?s1 = int (Suc a + n)" using Suc.prems(1) by simp
  have fl: "\<forall>i \<le> n. fails ?s1 kw (children (spawned ?w2 + i))"
    using Suc.prems(2) by (auto simp: fails_def)
  have p: "check_enabled ?s1 kw" "0 \<le> retry_sleep ?s1" "retry_handler ?s1 = Some h"
    using Suc.prems(3,7,8) by simp_all
  from Suc.IH [OF rt fl p(1) Suc.prems(4,5,6) p(2,3)]
  obtain w' where
    r: "get_output_from children ?s1 arguments kw (int (Suc a)) ?w2
          = Raises ((if Suc a + n = 0 then CommandFailedException else CommandMaxRetryExceeded)
                      (failure_of (children (spawned ?w2 + n))))
              (after_attempt ?s1 (children (spawned ?w2 + n)), w')"
    and s': "spawned w' = spawned ?w2 + n + 1"
    and e': "events w'
               = events ?w2
                 @ concat (map (\<lambda>i. launch_events ?s1 arguments kw (spawned ?w2 + i)
                                 @ [Retry_handler_call h
                                      (after_attempt ?s1 (children (spawned ?w2 + i)))
                                      arguments kw (int (Suc a + i))
                                      (CommandFailedException
                                         (failure_of (children (spawned ?w2 + i)))),
                                    Sleep (retry_sleep ?s1)])
                           [0..<n])
                 @ launch_events ?s1 arguments kw (spawned ?w2 + n)"
    by blast
  have m: "[0..<Suc n] = 0 # map Suc [0..<n]"
    by (simp add: upt_conv_Cons map_Suc_upt del: upt_Suc)
  show ?case
    apply (rule exI [of _ w'])
    using step r s' e' ev
    by (simp add: m comp_def add.left_commute del: upt_Suc)
qed

lemma filter_launch_events [simp]:
  "length (filter is_popen (launch_events self arguments kw p)) = 1"
  "filter is_retry_call (launch_events self arguments kw p) = []"
  "filter is_sleep (launch_events self arguments kw p) = []"
  by (simp_all add: launch_events_def split: option.splits)

lemma filter_retried_attempt_events [simp]:
  "length (filter is_popen (retried_attempt_events children self arguments kw h p0 i)) = 1"
  "length (filter is_retry_call (retried_attempt_events children self arguments kw h p0 i)) = 1"
  "filter is_sleep (retried_attempt_events children self arguments kw h p0 i)
     = [Sleep (retry_sleep self)]"
  by (simp_all add: retried_attempt_events_def)

lemma length_filter_concat_map:
  "(\<And>x. length (filter P (f x)) = 1) \<Longrightarrow>
   length (filter P (concat (map f xs))) = length xs"
  by (induction xs) auto

lemma filter_sleep_concat_map:
  "(\<And>x. filter P (f x) = [v]) \<Longrightarrow>
   filter P (concat (map f xs)) = replicate (length xs) v"
  by (induction xs) auto

lemma retry_trace_counts:
  "length (filter is_popen (retry_trace children self arguments kw h p0 R)) = R + 1"
  "length (filter is_retry_call (retry_trace children self arguments kw h p0 R)) = R"
  "filter is_sleep (retry_trace children self arguments kw h p0 R)
     = replicate R (Sleep (retry_sleep self))"
  by (simp_all add: retry_trace_def length_filter_concat_map filter_sleep_concat_map)

theorem retries_exhausted:
  assumes "1 \<le> R" and "retry_times self = int R"
    and "0 \<le> retry_sleep self" and "retry_handler self = Some h"
    and "check_enabled self kw"
    and "kw_unknown kw = []" and "kw_out_handler kw = None" and "kw_err_handler kw = None"
    and "\<forall>i \<le> R. fails self kw (children (spawned w + i))"
  shows "\<exists>w'. get_output children self arguments kw w
                 = Raises (CommandMaxRetryExceeded (failure_of (children (spawned w + R))))
                     (after_attempt self (children (spawned w + R)), w')
               \<and> spawned w' = spawned w + (R + 1)
               \<and> events w' = events w @ retry_trace children self arguments kw h (spawned w) R
               \<and> length (filter is_popen (retry_trace children self arguments kw h (spawned w) R))
                   = R + 1
               \<and> length (filter is_retry_call
                            (retry_trace children self arguments kw h (spawned w) R)) = R
               \<and> filter is_sleep (retry_trace children self arguments kw h (spawned w) R)
                   = replicate R (Sleep (retry_sleep self))"
proof -
  have rt: "retry_times self = int (0 + R)" using assms(2) by simp
  from all_attempts_fail [OF assms(5,6,7,8,3,4) rt assms(9), of arguments]
  obtain w' where
    r: "get_output_from children self arguments kw (int 0) w
          = Raises ((if 0 + R = 0 then CommandFailedException else CommandMaxRetryExceeded)
                      (failure_of (children (spawned w + R))))
              (after_attempt self (children (spawned w + R)), w')"
    and s': "spawned w' = spawned w + R + 1"
    and e': "events w'
               = events w
                 @ concat (map (\<lambda>i. launch_events self arguments kw (spawned w + i)
                                 @ [Retry_handler_call h
                                      (after_attempt self (children (spawned w + i)))
                                      arguments kw (int (0 + i))
                                      (CommandFailedException
                                         (failure_of (children (spawned w + i)))),
                                    Sleep (retry_sleep self)])
                           [0..<R])
                 @ launch_events self arguments kw (spawned w + R)"
    by blast
  have "events w' = events w @ retry_trace children self arguments kw h (spawned w) R"
    using e' by (simp add: retry_trace_def retried_attempt_events_def [abs_def])
  then show ?thesis
    using r s' assms(1) retry_trace_counts [of children self arguments kw h "spawned w" R]
    by (intro exI [of _ w']) (simp add: get_output_def)
qed

theorem no_retry_raises_original:
  assumes "retry_times self = 0"
    and "check_enabled self kw"
    and "kw_unknown kw = []" and "kw_out_handler kw = None" and "kw_err_handler kw = None"
    and "fails self kw (children (spawned w))"
  shows "get_output children self arguments kw w
           = Raises (CommandFailedException (failure_of (children (spawned w))))
               (after_attempt self (children (spawned w)),
                attempt_world children self arguments kw w)
         \<and> spawned (attempt_world children self arguments kw w) = spawned w + 1
         \<and> events (attempt_world children self arguments kw w)
             = events w @ launch_events self arguments kw (spawned w)
         \<and> length (filter is_popen (launch_events self arguments kw (spawned w))) = 1
         \<and> filter is_retry_call (launch_events self arguments kw (spawned w)) = []
         \<and> filter is_sleep (launch_events self arguments kw (spawned w)) = []"
proof -
  have once: "get_output_once children self arguments kw w
                = Raises (CommandFailedException (failure_of (children (spawned w))))
                    (after_attempt self (children (spawned w)),
                     attempt_world children self arguments kw w)"
    using get_output_once_fails [of self kw children w arguments] assms by simp
  show ?thesis
    using get_output_from_failed [OF once, of 0] assms(1)
    by (simp add: get_output_def)
qed

theorem failure_keeps_last_attempt:
  assumes "get_output children self arguments kw w = Raises e (self', w')"
    and "e = CommandFailedException d \<or> e = CommandMaxRetryExceeded d"
  shows "spawned w < spawned w'
         \<and> completes (children (spawned w' - 1))
         \<and> ret self' = Some (returncode (children (spawned w' - 1)))
         \<and> out self' = Some (join [NL] (captured_lines Append_out (children (spawned w' - 1))))
         \<and> err self' = Some (join [NL] (captured_lines Append_err (children (spawned w' - 1))))
         \<and> pipe self' = None"
  using get_output_from_failure [of children self arguments kw 0 w e self' w' d] assms
  by (simp add: get_output_def captured_def)

lemma execute_CommandFailedException:
  assumes "execute children self arguments kw w = Raises (CommandFailedException d) (self', w')"
  shows "d = \<lparr>f_ret = Some (returncode (children (spawned w))), f_out = None, f_err = None\<rparr>"
proof -
  let ?out_h = "case kw_out_handler kw of Some v \<Rightarrow> v | None \<Rightarrow> out_handler self"
  let ?err_h = "case kw_err_handler kw of Some v \<Rightarrow> v | None \<Rightarrow> err_handler self"
  let ?loop = "pipe_processor_loop (start_loop (children (spawned w)) ?out_h ?err_h)"
  have u: "kw_unknown kw = []"
    using assms by (auto simp: execute_def Let_def split: if_splits)
  note cw = pipe_processor_loop_calls_within
    [OF calls_within_start_loop [of ?out_h ?err_h "children (spawned w)"]]
  show ?thesis
  proof (cases ?loop)
    case (Returns u' st)
    then show ?thesis
      using assms u
      by (auto simp: execute_def Let_def build_pipe_def check_return_value_def
          split: if_splits)
  next
    case (Raises e st)
    then have "e = ValueError \<or> (\<exists>n. e = Select_error n)"
      using cw by simp
    then show ?thesis
      using assms u Raises
      by (auto simp: execute_def Let_def build_pipe_def split: if_splits)
  next
    case (Select_waits st)
    then show ?thesis
      using assms u by (auto simp: execute_def Let_def build_pipe_def split: if_splits)
  next
    case (Read_blocks s)
    then show ?thesis
      using assms u by (auto simp: execute_def Let_def build_pipe_def split: if_splits)
  qed
qed

theorem policy_failure_detail:
  "(get_output children self arguments kw w = Raises e (self', w')
      \<and> (e = CommandFailedException d \<or> e = CommandMaxRetryExceeded d)
    \<longrightarrow> f_ret d = Some (returncode (children (spawned w' - 1)))
        \<and> f_out d = Some (captured Append_out (children (spawned w' - 1)))
        \<and> f_err d = Some (captured Append_err (children (spawned w' - 1)))
        \<and> returncode (children (spawned w' - 1)) \<notin> set (accepted_codes self kw))
   \<and> (call children self arguments kw w = Raises e (self', w')
      \<and> (e = CommandFailedException d \<or> e = CommandMaxRetryExceeded d)
    \<longrightarrow> f_ret d = Some (returncode (children (spawned w' - 1)))
        \<and> f_out d = Some (captured Append_out (children (spawned w' - 1)))
        \<and> f_err d = Some (captured Append_err (children (spawned w' - 1)))
        \<and> returncode (children (spawned w' - 1)) \<notin> set (accepted_codes self kw))
   \<and> (execute children self arguments kw w = Raises (CommandFailedException d) (self', w')
    \<longrightarrow> f_ret d = Some (returncode (children (spawned w)))
        \<and> f_out d = None \<and> f_err d = None)"
proof (intro conjI impI)
  assume a: "get_output children self arguments kw w = Raises e (self', w')
      \<and> (e = CommandFailedException d \<or> e = CommandMaxRetryExceeded d)"
  then have f: "d = failure_of (children (spawned w' - 1))"
    and r: "returncode (children (spawned w' - 1)) \<notin> set (accepted_codes self kw)"
    using get_output_from_failure [of children self arguments kw 0 w e self' w' d]
    by (simp_all add: get_output_def)
  show "f_ret d = Some (returncode (children (spawned w' - 1)))"
    "f_out d = Some (captured Append_out (children (spawned w' - 1)))"
    "f_err d = Some (captured Append_err (children (spawned w' - 1)))"
    "returncode (children (spawned w' - 1)) \<notin> set (accepted_codes self kw)"
    using f r by (simp_all add: failure_of_def)
next
  assume a: "call children self arguments kw w = Raises e (self', w')
      \<and> (e = CommandFailedException d \<or> e = CommandMaxRetryExceeded d)"
  then have g: "get_output children self arguments kw w = Raises e (self', w')"
    by (auto simp: call_def split: outcome.splits prod.splits)
  then have f: "d = failure_of (children (spawned w' - 1))"
    and r: "returncode (children (spawned w' - 1)) \<notin> set (accepted_codes self kw)"
    using a get_output_from_failure [of children self arguments kw 0 w e self' w' d]
    by (simp_all add: get_output_def)
  show "f_ret d = Some (returncode (children (spawned w' - 1)))"
    "f_out d = Some (captured Append_out (children (spawned w' - 1)))"
    "f_err d = Some (captured Append_err (children (spawned w' - 1)))"
    "returncode (children (spawned w' - 1)) \<notin> set (accepted_codes self kw)"
    using f r by (simp_all add: failure_of_def)
next
  assume "execute children self arguments kw w = Raises (CommandFailedException d) (self', w')"
  then have "d = \<lparr>f_ret = Some (returncode (children (spawned w))), f_out = None, f_err = None\<rparr>"
    by (rule execute_CommandFailedException)
  then show "f_ret d = Some (returncode (children (spawned w)))" "f_out d = None" "f_err d = None"
    by simp_all
qed

lemma captured_lines_talking_child:
  "captured_lines Append_out (talking_child rc) = [[0x6F, 0x6B], []]"
  "captured_lines Append_err (talking_child rc) = [[0x65]]"
  using attempt_run_talking_child [of rc]
  by (auto simp: captured_lines_def lines_for_def)

lemma fails_talking_child:
  "fails idle_command no_kwargs (talking_child 1)"
  "fails once_command no_kwargs (talking_child 1)"
  by (simp_all add: fails_def completes_talking_child returncode_talking_child
      accepted_codes_def no_kwargs_def idle_command_def once_command_def)

lemma example_settings:
  "check_enabled idle_command no_kwargs" "check_enabled once_command no_kwargs"
  "kw_unknown no_kwargs = []" "kw_out_handler no_kwargs = None" "kw_err_handler no_kwargs = None"
  "retry_times once_command = 0" "retry_times idle_command = int 1"
  "0 \<le> retry_sleep idle_command" "retry_handler idle_command = Some 7"
  by (simp_all add: check_enabled_def no_kwargs_def idle_command_def once_command_def)

lemma example_no_retry:
  "get_output (every_child (talking_child 1)) once_command [] no_kwargs new_world
     = Raises (CommandFailedException
                 \<lparr>f_ret = Some 1, f_out = Some [0x6F, 0x6B, 0x0A], f_err = Some [0x65]\<rparr>)
         (once_command\<lparr>ret := Some 1, out := Some [0x6F, 0x6B, 0x0A], err := Some [0x65],
                       pipe := None\<rparr>,
          \<lparr>spawned = 1, events = [Popen (Exec_argv [''/bin/false'']) False None True],
           out_list = [[0x6F, 0x6B], []], err_list = [[0x65]]\<rparr>)"
proof -
  have f: "fails once_command no_kwargs (every_child (talking_child 1) (spawned new_world))"
    using fails_talking_child(2) by (simp add: every_child_def)
  have once: "get_output_once (every_child (talking_child 1)) once_command [] no_kwargs new_world
                = Raises (CommandFailedException
                            (failure_of (every_child (talking_child 1) (spawned new_world))))
                    (after_attempt once_command
                       (every_child (talking_child 1) (spawned new_world)),
                     attempt_world (every_child (talking_child 1)) once_command [] no_kwargs
                       new_world)"
    using get_output_once_fails
      [of once_command no_kwargs "every_child (talking_child 1)" new_world "[]"]
      example_settings f
    by simp
  show ?thesis
    using get_output_from_failed [OF once, of 0]
    by (simp add: get_output_def every_child_def failure_of_def after_attempt_def
        attempt_world_def captured_talking_child captured_lines_talking_child
        returncode_talking_child new_world_def launch_events_def command_line_def
        once_command_def idle_command_def no_kwargs_def)
qed

lemma example_execute:
  "execute (every_child (talking_child 1)) idle_command [] no_kwargs new_world
     = Raises (CommandFailedException \<lparr>f_ret = Some 1, f_out = None, f_err = None\<rparr>)
         (idle_command\<lparr>ret := Some 1\<rparr>,
          \<lparr>spawned = 1,
           events = [Popen (Exec_argv [''/bin/false'']) False None True,
                     Log_line 20 [0x6F, 0x6B], Log_line 30 [0x65]],
           out_list = [], err_list = []\<rparr>)"
  by (simp add: execute_def every_child_def talking_child_def idle_command_def no_kwargs_def
      new_world_def build_pipe_def command_line_def write_stdin_def start_loop_def new_pipe_def
      Let_def readable_def os_read_def process_def new_StreamLineProcessor_def close_reader_def
      call_handler_def NL_def pipe_processor_loop.simps run_calls_def with_prefix_def
      check_return_value_def)

end
